theory Spec2Isabelle
  imports Complex_Main "HOL-Library.Multiset"
begin

section \<open>Errors\<close>

text \<open>
  Every way the modelled code can stop early is a constructor of one error type.
  The two \<open>Exception\<close>s of \<open>mosaic_s1\<close> and the one of \<open>process_aligned\<close> are
  told apart by their raise site; \<open>IndexError\<close>, \<open>ValueError\<close>, \<open>TypingError\<close>,
  \<open>UnboundLocalError\<close> and \<open>FileNotFoundError\<close> come from Python, NumPy and the
  Numba dispatcher; \<open>External\<close> wraps whatever a function of the raster library,
  which is not part of the modelled code, raises.
\<close>

datatype error =
    NotAList
  | TooFewFiles
  | NotAligned
  | IndexError
  | ValueError
  | TypingError
  | UnboundLocalError
  | FileNotFoundError
  | External string

section \<open>The NumPy operations used by \<open>hood_quantile\<close>\<close>

text \<open>
  Sample values and weights are modelled as real numbers: the rounding of the 32-bit and
  64-bit floats of the source is not modelled, all arithmetic is exact.

  \<open>np.argsort\<close>: the indices that sort the values. Among equal values the model keeps
  the original order (a stable sort).
\<close>

definition argsort :: "real list \<Rightarrow> nat list" where
  "argsort vs = map snd (sort_key fst (zip vs [0..<length vs]))"

text \<open>\<open>np.cumsum\<close>: running sums, the accumulator written out.\<close>

fun cumsum_from :: "real \<Rightarrow> real list \<Rightarrow> real list" where
  "cumsum_from acc [] = []"
| "cumsum_from acc (w # ws) = (acc + w) # cumsum_from (acc + w) ws"

definition cumsum :: "real list \<Rightarrow> real list" where
  "cumsum ws = cumsum_from 0 ws"

text \<open>
  \<open>np.interp(x, xp, fp)\<close> for a scalar \<open>x\<close>, after NumPy's \<open>arr_interp\<close>: a single
  sample point is compared directly; otherwise the search returns the last index \<open>j\<close>
  with \<open>xp[j] \<le> x\<close> (left and right of the sample points the end values are returned),
  and the value is read at \<open>j\<close> when \<open>j\<close> is the last index or \<open>xp[j] = x\<close>, and
  interpolated linearly between \<open>j\<close> and \<open>j + 1\<close> otherwise. An empty \<open>xp\<close> is a
  \<open>ValueError\<close>.
\<close>

definition search_index :: "real \<Rightarrow> real list \<Rightarrow> nat" where
  "search_index key arr = length (takeWhile (\<lambda>a. a \<le> key) (tl arr))"

definition interp :: "real \<Rightarrow> real list \<Rightarrow> real list \<Rightarrow> error + real" where
  "interp x xp fp =
     (let lenxp = length xp in
      if lenxp = 0 then Inl ValueError
      else if lenxp = 1 then
        (if x < xp ! 0 then Inr (fp ! 0)
         else if x > xp ! 0 then Inr (fp ! (lenxp - 1))
         else Inr (fp ! 0))
      else if x > xp ! (lenxp - 1) then Inr (fp ! (lenxp - 1))
      else if x < xp ! 0 then Inr (fp ! 0)
      else
        (let j = search_index x xp in
         if j = lenxp - 1 then Inr (fp ! j)
         else if xp ! j = x then Inr (fp ! j)
         else Inr ((fp ! (j + 1) - fp ! j) / (xp ! (j + 1) - xp ! j) * (x - xp ! j) + fp ! j)))"

section \<open>\<open>hood_quantile\<close>\<close>

text \<open>
  \<^verbatim>\<open>
  def hood_quantile(values, weights, quant):
      sort_mask = np.argsort(values)
      sorted_data = values[sort_mask]
      sorted_weights = weights[sort_mask]
      cumsum = np.cumsum(sorted_weights)
      intersect = (cumsum - 0.5 * sorted_weights) / cumsum[-1]
      return np.interp(quant, intersect, sorted_data)
  \<close>
  Indexing \<open>weights\<close> with the sort mask needs a weight for every value, and
  \<open>cumsum[-1]\<close> needs a non-empty array: both are an \<open>IndexError\<close> in the model.
  The element-wise expression for \<open>intersect\<close> is \<open>intersect_of\<close>.
\<close>

definition intersect_of :: "real list \<Rightarrow> real list \<Rightarrow> real list" where
  "intersect_of cs sorted_weights =
     map (\<lambda>(c, w). (c - 0.5 * w) / last cs) (zip cs sorted_weights)"

definition hood_quantile :: "real list \<Rightarrow> real list \<Rightarrow> real \<Rightarrow> error + real" where
  "hood_quantile vs weights quant =
     (let sort_mask = argsort vs in
      if length weights < length vs then Inl IndexError
      else
        (let sorted_data = map (\<lambda>i. vs ! i) sort_mask;
             sorted_weights = map (\<lambda>i. weights ! i) sort_mask;
             cs = cumsum sorted_weights in
         if cs = [] then Inl IndexError
         else interp quant (intersect_of cs sorted_weights) sorted_data))"

text \<open>
  The standard median, as the specification words it: the middle element of the sorted
  values for an odd length, the mean of the two middle elements for an even length.
\<close>

definition standard_median :: "real list \<Rightarrow> real" where
  "standard_median vs =
     (let s = sort vs; n = length s in
      if odd n then s ! (n div 2) else (s ! (n div 2 - 1) + s ! (n div 2)) / 2)"


text \<open>The branch of \<open>interp\<close> taken between the first and the last sample point, at the
  index \<open>j\<close> the search returned; named on its own for the proofs.\<close>

definition interp_at :: "real \<Rightarrow> real list \<Rightarrow> real list \<Rightarrow> nat \<Rightarrow> real" where
  "interp_at x xp fp j =
     (if j = length xp - 1 then fp ! j
      else if xp ! j = x then fp ! j
      else (fp ! (j + 1) - fp ! j) / (xp ! (j + 1) - xp ! j) * (x - xp ! j) + fp ! j)"


section \<open>Arrays\<close>

text \<open>
  A three-dimensional NumPy array is its shape and its items; a two-dimensional one is
  its column count and its list of rows (so the shape of an array without rows keeps its
  second component). An index below zero counts from the end of the axis, as Python's
  and Numba's indexing do. Numba does not check bounds: a read outside the shape is
  whatever \<open>item3\<close> holds there.
\<close>

record ndarray3 =
  shape0 :: nat
  shape1 :: nat
  shape2 :: nat
  item3 :: "nat \<Rightarrow> nat \<Rightarrow> nat \<Rightarrow> real"

record ndarray2 =
  ncols :: nat
  rowlist :: "real list list"

definition wrap_index :: "nat \<Rightarrow> int \<Rightarrow> nat" where
  "wrap_index n i = nat (if i < 0 then i + int n else i)"

definition getitem3 :: "ndarray3 \<Rightarrow> int \<Rightarrow> int \<Rightarrow> int \<Rightarrow> real" where
  "getitem3 a x y z =
     item3 a (wrap_index (shape0 a) x) (wrap_index (shape1 a) y) (wrap_index (shape2 a) z)"

definition setitem2 :: "ndarray2 \<Rightarrow> nat \<Rightarrow> nat \<Rightarrow> real \<Rightarrow> ndarray2" where
  "setitem2 r x y v = r\<lparr>rowlist := (rowlist r)[x := (rowlist r ! x)[y := v]]\<rparr>"

text \<open>\<open>np.full(shape, v)\<close>; \<open>np.zeros(shape)\<close> is \<open>np_full shape 0\<close>.\<close>

definition np_full :: "nat \<times> nat \<Rightarrow> real \<Rightarrow> ndarray2" where
  "np_full shp v = \<lparr>ncols = snd shp, rowlist = replicate (fst shp) (replicate (snd shp) v)\<rparr>"

text \<open>\<open>np.ones_like(a)\<close>.\<close>

definition ones_like :: "ndarray3 \<Rightarrow> ndarray3" where
  "ones_like a = a\<lparr>item3 := (\<lambda>x y z. 1)\<rparr>"

text \<open>
  \<open>np.median\<close> of a one-dimensional array and the selection
  \<open>hood_values[np.nonzero(hood_weights)]\<close>.
\<close>

definition np_median :: "real list \<Rightarrow> real" where
  "np_median vs =
     (let s = sort vs; n = length s in
      if odd n then s ! (n div 2) else (s ! (n div 2 - 1) + s ! (n div 2)) / 2)"

definition select_nonzero :: "real list \<Rightarrow> real list \<Rightarrow> real list" where
  "select_nonzero vs ws = map fst (filter (\<lambda>(v, w). w \<noteq> 0) (zip vs ws))"

section \<open>\<open>s1_collapse\<close>\<close>

text \<open>
  The kernel table is the list of offsets \<open>(dx, dy, dz)\<close> and the list of weights.
  One candidate of the neighbourhood of \<open>(x, y)\<close>: the three \<open>if\<close>/\<open>elif\<close> blocks of
  the source clamp the temporal offset to \<open>[-z_adj, z_adj]\<close>, the row to \<open>[0, x_adj]\<close>
  and the column to \<open>[0, y_adj]\<close>, in this order, and set \<open>outside\<close> when they clamp.
\<close>

type_synonym offset = "int \<times> int \<times> int"

definition clamp_axis :: "int \<Rightarrow> int \<Rightarrow> int \<times> bool \<Rightarrow> int \<times> bool" where
  "clamp_axis lo hi c =
     (if fst c < lo then (lo, True) else if fst c > hi then (hi, True) else c)"

record candidate =
  offset_x :: int
  offset_y :: int
  offset_z :: int
  outside :: bool

definition candidate_of :: "ndarray3 \<Rightarrow> offset \<Rightarrow> nat \<Rightarrow> nat \<Rightarrow> candidate" where
  "candidate_of arr off x y =
     (let x_adj = int (shape0 arr) - 1;
          y_adj = int (shape1 arr) - 1;
          z_adj = (int (shape2 arr) - 1) div 2;
          cz = clamp_axis (- z_adj) z_adj (snd (snd off), False);
          cx = clamp_axis 0 x_adj (int x + fst off, snd cz);
          cy = clamp_axis 0 y_adj (int y + fst (snd off), snd cx)
      in \<lparr>offset_x = fst cx, offset_y = fst cy, offset_z = fst cz, outside = snd cy\<rparr>)"

text \<open>
  The body of the loop over the kernel entries: a candidate that is outside, or that reads
  the nodata value while the nodata flag is set, is skipped by \<open>continue\<close> (the
  condition is \<open>skipped\<close>); every other
  candidate stores its value and its weight in slot \<open>n\<close> and adds the weight to
  \<open>weight_sum\<close>.
\<close>

record hood =
  hood_values :: "real list"
  hood_weights :: "real list"
  weight_sum :: real

definition skipped :: "ndarray3 \<Rightarrow> offset \<Rightarrow> bool \<Rightarrow> real \<Rightarrow> nat \<Rightarrow> nat \<Rightarrow> bool" where
  "skipped arr off nodata nodata_value x y =
     (let c = candidate_of arr off x y;
          v = getitem3 arr (offset_x c) (offset_y c) (offset_z c)
      in outside c \<or> (nodata \<and> v = nodata_value))"

definition hood_step ::
  "ndarray3 \<Rightarrow> offset list \<Rightarrow> real list \<Rightarrow> ndarray3 \<Rightarrow> bool \<Rightarrow> real
   \<Rightarrow> nat \<Rightarrow> nat \<Rightarrow> hood \<Rightarrow> nat \<Rightarrow> hood" where
  "hood_step arr offsets weights feather_weights nodata nodata_value x y h n =
     (let c = candidate_of arr (offsets ! n) x y;
          v = getitem3 arr (offset_x c) (offset_y c) (offset_z c)
      in if skipped arr (offsets ! n) nodata nodata_value x y then h
         else
           (let weight = weights ! n
                  * getitem3 feather_weights (offset_x c) (offset_y c) (offset_z c)
            in h\<lparr>hood_values := (hood_values h)[n := v],
                 hood_weights := (hood_weights h)[n := weight],
                 weight_sum := weight_sum h + weight\<rparr>))"

definition gather ::
  "ndarray3 \<Rightarrow> offset list \<Rightarrow> real list \<Rightarrow> ndarray3 \<Rightarrow> bool \<Rightarrow> real
   \<Rightarrow> nat \<Rightarrow> nat \<Rightarrow> hood" where
  "gather arr offsets weights feather_weights nodata nodata_value x y =
     (let hood_size = length offsets in
      foldl (hood_step arr offsets weights feather_weights nodata nodata_value x y)
        \<lparr>hood_values = replicate hood_size 0, hood_weights = replicate hood_size 0,
         weight_sum = 0\<rparr>
        [0..<hood_size])"

text \<open>
  The state of a call: the four arrays the call receives and the result array it builds.
  The body of the pixel loops reads the inputs from the state and assigns to
  \<open>result[x, y]\<close> only when \<open>weight_sum > 0\<close>.
\<close>

record s1_state =
  st_arr :: ndarray3
  st_offsets :: "offset list"
  st_weights :: "real list"
  st_feather :: ndarray3
  st_result :: ndarray2

definition pixel_body ::
  "real \<Rightarrow> bool \<Rightarrow> real \<Rightarrow> bool \<Rightarrow> nat \<Rightarrow> nat \<Rightarrow> s1_state \<Rightarrow> error + s1_state" where
  "pixel_body quantile nodata nodata_value weighted x y st =
     (let h = gather (st_arr st) (st_offsets st) (st_weights st) (st_feather st)
                nodata nodata_value x y;
          hw = map (\<lambda>w. w / weight_sum h) (hood_weights h)
      in if weight_sum h > 0 then
           (if weighted then
              (case hood_quantile (hood_values h) hw quantile of
                 Inl e \<Rightarrow> Inl e
               | Inr v \<Rightarrow> Inr (st\<lparr>st_result := setitem2 (st_result st) x y v\<rparr>))
            else
              Inr (st\<lparr>st_result :=
                     setitem2 (st_result st) x y (np_median (select_nonzero (hood_values h) hw))\<rparr>))
         else Inr st)"

text \<open>
  The two pixel loops, run over a list of positions. The source visits the positions row
  by row (\<open>pixel_order\<close>); the outer loop is a \<open>prange\<close>, so any other order of the
  rows is a possible run as well.
\<close>

fun run_pixels ::
  "(nat \<Rightarrow> nat \<Rightarrow> s1_state \<Rightarrow> error + s1_state) \<Rightarrow> (nat \<times> nat) list \<Rightarrow> s1_state
   \<Rightarrow> error + s1_state" where
  "run_pixels body [] st = Inr st"
| "run_pixels body (p # ps) st =
     (case body (fst p) (snd p) st of
        Inl e \<Rightarrow> Inl e
      | Inr st' \<Rightarrow> run_pixels body ps st')"

definition pixel_order :: "ndarray3 \<Rightarrow> (nat \<times> nat) list" where
  "pixel_order arr = List.product [0..<shape0 arr] [0..<shape1 arr]"

definition initial_state ::
  "ndarray3 \<Rightarrow> offset list \<Rightarrow> real list \<Rightarrow> ndarray3 \<Rightarrow> bool \<Rightarrow> real \<Rightarrow> s1_state" where
  "initial_state arr offsets weights feather_weights nodata nodata_value =
     \<lparr>st_arr = arr, st_offsets = offsets, st_weights = weights, st_feather = feather_weights,
      st_result = (if nodata then np_full (shape0 arr, shape1 arr) nodata_value
                   else np_full (shape0 arr, shape1 arr) 0)\<rparr>"

definition s1_collapse ::
  "ndarray3 \<Rightarrow> offset list \<Rightarrow> real list \<Rightarrow> ndarray3 \<Rightarrow> real \<Rightarrow> bool \<Rightarrow> real \<Rightarrow> bool
   \<Rightarrow> error + ndarray2" where
  "s1_collapse arr offsets weights feather_weights quantile nodata nodata_value weighted =
     (case run_pixels (pixel_body quantile nodata nodata_value weighted) (pixel_order arr)
             (initial_state arr offsets weights feather_weights nodata nodata_value) of
        Inl e \<Rightarrow> Inl e
      | Inr st \<Rightarrow> Inr (st_result st))"


text \<open>
  What the body assigns to \<open>result[x, y]\<close>, if anything, as a function of the inputs
  alone, and the array a call returns when every position either receives that value or
  keeps the initial one. The lemmas below prove that the loops compute exactly this.
\<close>

definition pixel_value ::
  "ndarray3 \<Rightarrow> offset list \<Rightarrow> real list \<Rightarrow> ndarray3 \<Rightarrow> real \<Rightarrow> bool \<Rightarrow> real \<Rightarrow> bool
   \<Rightarrow> nat \<Rightarrow> nat \<Rightarrow> real option" where
  "pixel_value arr offsets weights feather_weights quantile nodata nodata_value weighted x y =
     (let h = gather arr offsets weights feather_weights nodata nodata_value x y;
          hw = map (\<lambda>w. w / weight_sum h) (hood_weights h)
      in if weight_sum h > 0 then
           (if weighted then
              (case hood_quantile (hood_values h) hw quantile of
                 Inl e \<Rightarrow> None
               | Inr v \<Rightarrow> Some v)
            else Some (np_median (select_nonzero (hood_values h) hw)))
         else None)"

definition collapsed ::
  "ndarray3 \<Rightarrow> offset list \<Rightarrow> real list \<Rightarrow> ndarray3 \<Rightarrow> real \<Rightarrow> bool \<Rightarrow> real \<Rightarrow> bool
   \<Rightarrow> ndarray2" where
  "collapsed arr offsets weights feather_weights quantile nodata nodata_value weighted =
     \<lparr>ncols = shape1 arr,
      rowlist = map (\<lambda>x. map (\<lambda>y.
          case pixel_value arr offsets weights feather_weights quantile nodata nodata_value
                 weighted x y of
            None \<Rightarrow> (if nodata then nodata_value else 0)
          | Some v \<Rightarrow> v) [0..<shape1 arr]) [0..<shape0 arr]\<rparr>"

text \<open>A result array of \<open>R\<close> rows and \<open>C\<close> columns.\<close>

definition wf2 :: "nat \<Rightarrow> nat \<Rightarrow> ndarray2 \<Rightarrow> bool" where
  "wf2 R C r \<longleftrightarrow> ncols r = C \<and> length (rowlist r) = R \<and> (\<forall>row \<in> set (rowlist r). length row = C)"


section \<open>\<open>sort_rasters\<close>\<close>

text \<open>
  \<^verbatim>\<open>
  def name_to_date(path):
      timetag = os.path.basename(path).split("_")[5]
      return datetime.datetime.strptime(timetag, "%Y%m%dT%H%M%S").replace(...)
  \<close>
  \<open>os.path.basename\<close> keeps what follows the last \<open>/\<close>; \<open>split\<close> cuts at every
  underscore; the sixth field is an \<open>IndexError\<close> when there are fewer. The parser
  \<open>strptime\<close> of the standard library is a parameter: it returns the time stamp, a value
  of a linear order, or nothing for a tag it rejects (a \<open>ValueError\<close>).
\<close>

definition basename :: "string \<Rightarrow> string" where
  "basename path = rev (takeWhile (\<lambda>c. c \<noteq> CHR ''/'') (rev path))"

fun split_on :: "char \<Rightarrow> string \<Rightarrow> string \<Rightarrow> string list" where
  "split_on sep cur [] = [rev cur]"
| "split_on sep cur (c # cs) =
     (if c = sep then rev cur # split_on sep [] cs else split_on sep (c # cur) cs)"

definition name_to_date :: "(string \<Rightarrow> 'd option) \<Rightarrow> string \<Rightarrow> error + 'd" where
  "name_to_date strptime path =
     (let fields = split_on (CHR ''_'') [] (basename path) in
      if length fields \<le> 5 then Inl IndexError
      else (case strptime (fields ! 5) of None \<Rightarrow> Inl ValueError | Some d \<Rightarrow> Inr d))"

text \<open>
  \<open>sorted(rasters, key=name_to_date)\<close>: the keys are computed first, in order, and the
  first failure is raised; the sort is stable.
\<close>

fun keys_of :: "(string \<Rightarrow> 'd option) \<Rightarrow> string list \<Rightarrow> error + (string \<times> 'd) list" where
  "keys_of strptime [] = Inr []"
| "keys_of strptime (r # rs) =
     (case name_to_date strptime r of
        Inl e \<Rightarrow> Inl e
      | Inr d \<Rightarrow> (case keys_of strptime rs of Inl e \<Rightarrow> Inl e | Inr ks \<Rightarrow> Inr ((r, d) # ks)))"

definition sorted_by_date ::
  "(string \<Rightarrow> ('d::linorder) option) \<Rightarrow> string list \<Rightarrow> error + string list" where
  "sorted_by_date strptime rasters =
     (case keys_of strptime rasters of
        Inl e \<Rightarrow> Inl e
      | Inr ks \<Rightarrow> Inr (map fst (sort_key snd ks)))"

text \<open>
  The list \<open>copy\<close> starts as \<open>list(range(len(rasters)))\<close>, so an entry is a number
  until a raster is assigned to it. An assignment \<open>copy[i] = v\<close> counts a negative
  \<open>i\<close> from the end and raises \<open>IndexError\<close> outside the list.
\<close>

datatype slot = Num nat | Path string

definition setitem :: "'a list \<Rightarrow> int \<Rightarrow> 'a \<Rightarrow> error + 'a list" where
  "setitem xs i v =
     (let n = int (length xs); j = (if i < 0 then i + n else i)
      in if 0 \<le> j \<and> j < n then Inr (xs[nat j := v]) else Inl IndexError)"

text \<open>
  \<^verbatim>\<open>
  add = 1
  left = True
  for idx, raster in enumerate(by_date):
      if idx == 0:
          continue
      if left:
          copy[midpoint - add] = raster
          left = False
      else:
          copy[midpoint + add] = raster
          left = True
          add += 1
  \<close>
\<close>

fun place_loop ::
  "(nat \<times> string) list \<Rightarrow> slot list \<Rightarrow> int \<Rightarrow> int \<Rightarrow> bool \<Rightarrow> error + slot list" where
  "place_loop [] copy midpoint add left = Inr copy"
| "place_loop ((idx, raster) # rest) copy midpoint add left =
     (if idx = 0 then place_loop rest copy midpoint add left
      else if left then
        (case setitem copy (midpoint - add) (Path raster) of
           Inl e \<Rightarrow> Inl e
         | Inr copy' \<Rightarrow> place_loop rest copy' midpoint add False)
      else
        (case setitem copy (midpoint + add) (Path raster) of
           Inl e \<Rightarrow> Inl e
         | Inr copy' \<Rightarrow> place_loop rest copy' midpoint (add + 1) True))"

definition sort_rasters ::
  "(string \<Rightarrow> ('d::linorder) option) \<Rightarrow> string list \<Rightarrow> error + slot list" where
  "sort_rasters strptime rasters =
     (case sorted_by_date strptime rasters of
        Inl e \<Rightarrow> Inl e
      | Inr by_date \<Rightarrow>
          (let copy = map Num [0..<length rasters];
               midpoint = int (length rasters) div 2
           in case by_date of
                [] \<Rightarrow> Inl IndexError
              | first # _ \<Rightarrow>
                  (case setitem copy midpoint (Path first) of
                     Inl e \<Rightarrow> Inl e
                   | Inr copy' \<Rightarrow>
                       place_loop (zip [0..<length by_date] by_date) copy' midpoint 1 True)))"


text \<open>
  The stack index the specification gives to the \<open>k\<close>-th identifier in time order
  (\<open>k = 0\<close> is the earliest): \<open>mid\<close> for \<open>k = 0\<close>, then \<open>mid - 1, mid + 1, mid - 2,
  mid + 2, \<dots>\<close>, that is \<open>mid - j\<close> for \<open>k = 2 j - 1\<close> and \<open>mid + j\<close> for \<open>k = 2 j\<close>.
\<close>

definition place_pos :: "nat \<Rightarrow> nat \<Rightarrow> int" where
  "place_pos mid k = (if odd k then int mid - int ((k + 1) div 2) else int mid + int (k div 2))"


section \<open>The world outside the functions\<close>

text \<open>
  The raster library (\<open>create_kernel\<close>, \<open>raster_to_array\<close>, \<open>rasters_are_aligned\<close>,
  \<open>reproject_raster\<close>, \<open>rasters_intersect\<close>, \<open>clip_raster\<close>, \<open>align_rasters\<close>,
  \<open>calc_proximity\<close>), \<open>os.path.exists\<close> and \<open>uuid4\<close> are parameters, collected in one
  record; a function of the library that can fail returns its message on the left.
  What a run does to its surroundings is kept in a record as well: the name of every
  call made to the outside, in order; the arrays stored by \<open>np.save\<close>; and the masked
  array handed to \<open>array_to_raster\<close> for each output path. Console output
  (\<open>print\<close>, \<open>progress\<close>) is not modelled.
\<close>

record masked2 =
  ma_data :: ndarray2
  ma_mask :: "bool list list"
  ma_fill :: real

record world =
  trace :: "string list"
  npy_files :: "string \<rightharpoonup> ndarray2"
  rasters_written :: "string \<rightharpoonup> masked2"

record env =
  create_kernel :: "nat \<Rightarrow> offset list \<times> real list"
  raster_to_array :: "string list \<Rightarrow> string + ndarray3"
  rasters_are_aligned :: "string list \<Rightarrow> bool"
  uuid4 :: string
  path_exists :: "string \<Rightarrow> bool"
  reproject_raster :: "string \<Rightarrow> string \<Rightarrow> string + string"
  rasters_intersect :: "string \<Rightarrow> string \<Rightarrow> bool"
  clip_raster :: "string \<Rightarrow> string \<Rightarrow> string \<Rightarrow> string + string"
  align_rasters :: "string list \<Rightarrow> string \<Rightarrow> string \<Rightarrow> bool \<Rightarrow> string + string list"
  calc_proximity :: "string list \<Rightarrow> string \<Rightarrow> int \<Rightarrow> bool \<Rightarrow> string + string list"

type_synonym 'a io = "world \<Rightarrow> (error + 'a) \<times> world"

definition return_io :: "'a \<Rightarrow> 'a io" where
  "return_io a w = (Inr a, w)"

definition raise_io :: "error \<Rightarrow> 'a io" where
  "raise_io e w = (Inl e, w)"

definition bind_io :: "'a io \<Rightarrow> ('a \<Rightarrow> 'b io) \<Rightarrow> 'b io" where
  "bind_io m f w = (case m w of (Inl e, w') \<Rightarrow> (Inl e, w') | (Inr a, w') \<Rightarrow> f a w')"

text \<open>A call to the outside: its name goes to the trace, its failure becomes \<open>External\<close>.\<close>

definition outside_call :: "string \<Rightarrow> string + 'a \<Rightarrow> 'a io" where
  "outside_call name r w =
     ((case r of Inl msg \<Rightarrow> Inl (External msg) | Inr a \<Rightarrow> Inr a),
      w\<lparr>trace := trace w @ [name]\<rparr>)"

definition lift_io :: "error + 'a \<Rightarrow> 'a io" where
  "lift_io r w = (r, w)"

definition np_save :: "string \<Rightarrow> ndarray2 \<Rightarrow> unit io" where
  "np_save path a w =
     (Inr (), w\<lparr>trace := trace w @ [''np.save''], npy_files := (npy_files w)(path \<mapsto> a)\<rparr>)"

definition np_load :: "string \<Rightarrow> ndarray2 io" where
  "np_load path w =
     ((case npy_files w path of None \<Rightarrow> Inl FileNotFoundError | Some a \<Rightarrow> Inr a),
      w\<lparr>trace := trace w @ [''np.load'']\<rparr>)"

definition array_to_raster :: "masked2 \<Rightarrow> string \<Rightarrow> string \<Rightarrow> unit io" where
  "array_to_raster m master_raster out_path w =
     (Inr (), w\<lparr>trace := trace w @ [''array_to_raster''],
                 rasters_written := (rasters_written w)(out_path \<mapsto> m)\<rparr>)"

section \<open>Slices, concatenation, masks and formatted numbers\<close>

text \<open>
  \<open>a[start:stop]\<close> along the first axis: a negative bound counts from the end, and both
  bounds are cut to the length of the axis.
\<close>

definition slice_bounds :: "nat \<Rightarrow> int \<Rightarrow> int \<Rightarrow> nat \<times> nat" where
  "slice_bounds n start stop =
     (let lo = (if start < 0 then max 0 (start + int n) else min start (int n));
          hi = (if stop < 0 then max 0 (stop + int n) else min stop (int n))
      in (nat lo, nat (max lo hi)))"

definition slice3 :: "ndarray3 \<Rightarrow> int \<Rightarrow> int \<Rightarrow> ndarray3" where
  "slice3 a start stop =
     (let b = slice_bounds (shape0 a) start stop
      in a\<lparr>shape0 := snd b - fst b, item3 := (\<lambda>x. item3 a (x + fst b))\<rparr>)"

definition slice2 :: "ndarray2 \<Rightarrow> int \<Rightarrow> int \<Rightarrow> ndarray2" where
  "slice2 r start stop =
     (let b = slice_bounds (length (rowlist r)) start stop
      in r\<lparr>rowlist := take (snd b - fst b) (drop (fst b) (rowlist r))\<rparr>)"

text \<open>
  \<open>np.concatenate\<close> of two-dimensional arrays along the rows: a \<open>ValueError\<close> for an
  empty list and for arrays whose column counts differ.
\<close>

definition np_concatenate :: "ndarray2 list \<Rightarrow> error + ndarray2" where
  "np_concatenate parts =
     (case parts of
        [] \<Rightarrow> Inl ValueError
      | p # ps \<Rightarrow>
          if \<forall>q \<in> set ps. ncols q = ncols p
          then Inr \<lparr>ncols = ncols p, rowlist = concat (map rowlist parts)\<rparr>
          else Inl ValueError)"

text \<open>
  \<open>np.ma.masked_array(a, mask=a == nodata_value)\<close> with \<open>fill_value = nodata_value\<close>.
\<close>

definition mask_nodata :: "ndarray2 \<Rightarrow> real \<Rightarrow> masked2" where
  "mask_nodata a nodata_value =
     \<lparr>ma_data = a, ma_mask = map (map (\<lambda>v. v = nodata_value)) (rowlist a),
      ma_fill = nodata_value\<rparr>"

text \<open>The decimal digits of a number, as an f-string prints it.\<close>

definition digit_char :: "nat \<Rightarrow> char" where
  "digit_char d = ''0123456789'' ! d"

function str_nat :: "nat \<Rightarrow> string" where
  "str_nat n = (if n < 10 then [digit_char n] else str_nat (n div 10) @ [digit_char (n mod 10)])"
  by pat_completeness auto
termination
  by (relation "measure (\<lambda>n. n)") auto

declare str_nat.simps [simp del]

section \<open>\<open>process_aligned\<close>\<close>

text \<open>
  A Python name that the source passes on as it received it: the list of raster paths of
  the feather weights, or an array. The dispatcher of the compiled \<open>s1_collapse\<close>
  accepts an array for \<open>feather_weights\<close>; for a list of paths the indexing
  \<open>feather_weights[offset_x, offset_y, offset_z]\<close> has no type and the call raises a
  \<open>TypingError\<close>. \<open>process_aligned\<close> always calls with \<open>weighted=True\<close>,
  \<open>nodata=True\<close> and the default \<open>quantile=0.5\<close>.
\<close>

datatype pyval = Rasters "string list" | NDArray ndarray3

definition call_s1_collapse ::
  "ndarray3 \<Rightarrow> offset list \<Rightarrow> real list \<Rightarrow> pyval \<Rightarrow> real \<Rightarrow> error + ndarray2" where
  "call_s1_collapse arr offsets weights feather_weights nodata_value =
     (case feather_weights of
        Rasters paths \<Rightarrow> Inl TypingError
      | NDArray fw \<Rightarrow> s1_collapse arr offsets weights fw (1 / 2) True nodata_value True)"

text \<open>
  One round of the loop over the chunks, for the chunk number \<open>chunk\<close> of \<open>chunks\<close>:
  the rows \<open>[chunk_start, chunk_end)\<close> with one row of halo (\<open>chunk_offset = 1\<close>) on each
  side that is not an end of the stack, the collapse of the slice, the halo rows cut from
  the result (\<open>cut_start\<close>, \<open>cut_end\<close>, \<open>offset_start\<close>, \<open>offset_end\<close>), and the
  result saved under the chunk's path. The round returns the path.
\<close>

definition chunk_path_of :: "string \<Rightarrow> string \<Rightarrow> nat \<Rightarrow> string" where
  "chunk_path_of folder_tmp uids chunk = folder_tmp @ uids @ ''_chunk_'' @ str_nat chunk @ ''.npy''"

definition chunk_start_of :: "nat \<Rightarrow> nat \<Rightarrow> nat \<Rightarrow> int" where
  "chunk_start_of rows chunks chunk =
     (if chunk = 0 then 0 else int chunk * (int rows div int chunks) - 1)"

definition chunk_end_of :: "nat \<Rightarrow> nat \<Rightarrow> nat \<Rightarrow> int" where
  "chunk_end_of rows chunks chunk =
     (if int chunk = int chunks - 1 then int rows
      else (int chunk + 1) * (int rows div int chunks) + 1)"

definition trim_chunk :: "nat \<Rightarrow> nat \<Rightarrow> ndarray2 \<Rightarrow> ndarray2" where
  "trim_chunk chunks chunk arr_collapsed =
     (let cut_start = (chunk \<noteq> 0);
          cut_end = (int chunk \<noteq> int chunks - 1);
          offset_start = (if cut_start then 1 else 0);
          offset_end = (if cut_end then int (length (rowlist arr_collapsed)) - 1
                        else int (length (rowlist arr_collapsed)))
      in slice2 arr_collapsed offset_start offset_end)"

definition chunk_round ::
  "ndarray3 \<Rightarrow> ndarray3 option \<Rightarrow> offset list \<Rightarrow> real list \<Rightarrow> real \<Rightarrow> string \<Rightarrow> string
   \<Rightarrow> nat \<Rightarrow> nat \<Rightarrow> string io" where
  "chunk_round arr_aligned feather_weights_arr offsets weights nodata_value folder_tmp uids
     chunks chunk =
     (let chunk_start = chunk_start_of (shape0 arr_aligned) chunks chunk;
          chunk_end = chunk_end_of (shape0 arr_aligned) chunks chunk;
          arr_chunk = slice3 arr_aligned chunk_start chunk_end;
          weights_chunk = (case feather_weights_arr of
                             Some fw \<Rightarrow> slice3 fw chunk_start chunk_end
                           | None \<Rightarrow> ones_like arr_chunk)
      in bind_io (lift_io (call_s1_collapse arr_chunk offsets weights (NDArray weights_chunk)
                             nodata_value))
           (\<lambda>arr_collapsed.
              let chunk_path = chunk_path_of folder_tmp uids chunk
              in bind_io (np_save chunk_path (trim_chunk chunks chunk arr_collapsed))
                   (\<lambda>_. return_io chunk_path)))"

fun chunk_loop :: "(nat \<Rightarrow> string io) \<Rightarrow> nat list \<Rightarrow> string list \<Rightarrow> string list io" where
  "chunk_loop body [] chunks_list = return_io chunks_list"
| "chunk_loop body (chunk # rest) chunks_list =
     bind_io (body chunk) (\<lambda>path. chunk_loop body rest (chunks_list @ [path]))"

fun load_all :: "string list \<Rightarrow> ndarray2 list \<Rightarrow> ndarray2 list io" where
  "load_all [] merged = return_io merged"
| "load_all (path # rest) merged =
     bind_io (np_load path) (\<lambda>a. load_all rest (merged @ [a]))"

definition process_aligned ::
  "env \<Rightarrow> string list \<Rightarrow> string \<Rightarrow> string \<Rightarrow> int \<Rightarrow> string \<Rightarrow> real \<Rightarrow> string list option
   \<Rightarrow> string io" where
  "process_aligned ev aligned_rasters out_path folder_tmp chunks master_raster nodata_value
     feather_weights =
     bind_io (outside_call ''create_kernel'' (Inr (create_kernel ev (length aligned_rasters))))
     (\<lambda>kernel.
     let offsets = fst kernel; weights = snd kernel in
     bind_io (outside_call ''raster_to_array'' (raster_to_array ev aligned_rasters))
     (\<lambda>arr_aligned.
     bind_io (case feather_weights of
                None \<Rightarrow> return_io None
              | Some fw \<Rightarrow>
                  bind_io (outside_call ''raster_to_array'' (raster_to_array ev fw))
                    (\<lambda>a. return_io (Some a)))
     (\<lambda>feather_weights_arr.
     bind_io (outside_call ''rasters_are_aligned'' (Inr (rasters_are_aligned ev aligned_rasters)))
     (\<lambda>aligned.
     if \<not> aligned then raise_io NotAligned
     else if chunks > 1 then
       bind_io (chunk_loop
                  (chunk_round arr_aligned feather_weights_arr offsets weights nodata_value
                     folder_tmp (uuid4 ev) (nat chunks))
                  [0..<nat chunks] [])
       (\<lambda>chunks_list.
       bind_io (load_all chunks_list [])
       (\<lambda>merged.
       bind_io (lift_io (np_concatenate merged))
       (\<lambda>merged.
       bind_io (array_to_raster (mask_nodata merged nodata_value) master_raster out_path)
       (\<lambda>_. return_io out_path))))
     else
       (let weights_borders = (case feather_weights of
                                 Some fw \<Rightarrow> Rasters fw
                               | None \<Rightarrow> NDArray (ones_like arr_aligned))
        in bind_io (lift_io (call_s1_collapse arr_aligned offsets weights weights_borders
                               nodata_value))
           (\<lambda>arr_collapsed.
           bind_io (array_to_raster (mask_nodata arr_collapsed nodata_value) master_raster
                      out_path)
           (\<lambda>_. return_io out_path)))))))"


text \<open>What a round stores for its chunk.\<close>

definition chunk_result ::
  "ndarray3 \<Rightarrow> ndarray3 option \<Rightarrow> offset list \<Rightarrow> real list \<Rightarrow> real \<Rightarrow> nat \<Rightarrow> nat \<Rightarrow> ndarray2" where
  "chunk_result arr fwa offsets weights nodata_value chunks chunk =
     (let chunk_start = chunk_start_of (shape0 arr) chunks chunk;
          chunk_end = chunk_end_of (shape0 arr) chunks chunk;
          arr_chunk = slice3 arr chunk_start chunk_end;
          weights_chunk = (case fwa of
                             Some fw \<Rightarrow> slice3 fw chunk_start chunk_end
                           | None \<Rightarrow> ones_like arr_chunk)
      in trim_chunk chunks chunk
           (collapsed arr_chunk offsets weights weights_chunk (1 / 2) True nodata_value True))"


section \<open>Concrete inputs used by the witnesses\<close>

definition arr_c4 :: ndarray3 where
  "arr_c4 = \<lparr>shape0 = 1, shape1 = 1, shape2 = 3,
             item3 = (\<lambda>x y z. [[[-9999, 5, -9999]]] ! x ! y ! z)\<rparr>"

definition arr_c2 :: ndarray3 where
  "arr_c2 = \<lparr>shape0 = 1, shape1 = 2, shape2 = 1,
             item3 = (\<lambda>x y z. [[[-10], [30]]] ! x ! y ! z)\<rparr>"

definition arr_c10 :: ndarray3 where
  "arr_c10 = \<lparr>shape0 = 1, shape1 = 1, shape2 = 1,
              item3 = (\<lambda>x y z. [[[5]]] ! x ! y ! z)\<rparr>"

definition strptime_ex :: "string \<Rightarrow> nat option" where
  "strptime_ex tag =
     (if tag = ''20200103T000000'' then Some 3
      else if tag = ''20200101T000000'' then Some 1
      else if tag = ''20200102T000000'' then Some 2
      else None)"

definition date_ex :: "string \<Rightarrow> nat" where
  "date_ex path = (case name_to_date strptime_ex path of Inr d \<Rightarrow> d | Inl e \<Rightarrow> 0)"

definition raster_a :: string where
  "raster_a = ''tmp/S1A_IW_GRDH_1SDV_x_20200103T000000_Gamma0_VV.tif''"

definition raster_b :: string where
  "raster_b = ''tmp/S1A_IW_GRDH_1SDV_x_20200101T000000_Gamma0_VV.tif''"

definition raster_c :: string where
  "raster_c = ''tmp/S1A_IW_GRDH_1SDV_x_20200102T000000_Gamma0_VV.tif''"

definition arr_rows2 :: ndarray3 where
  "arr_rows2 = \<lparr>shape0 = 2, shape1 = 1, shape2 = 1,
                item3 = (\<lambda>x y z. [[[4]], [[8]]] ! x ! y ! z)\<rparr>"

definition env_ex :: env where
  "env_ex = \<lparr>create_kernel = (\<lambda>d. ([(0, 0, 0), (1, 0, 0), (-1, 0, 0)], [1 / 2, 1 / 4, 1 / 4])),
     raster_to_array = (\<lambda>paths. Inr arr_rows2),
     rasters_are_aligned = (\<lambda>paths. True),
     uuid4 = ''u'',
     path_exists = (\<lambda>p. False),
     reproject_raster = (\<lambda>img master. Inr (img @ ''_r'')),
     rasters_intersect = (\<lambda>a b. True),
     clip_raster = (\<lambda>r master out. Inr out),
     align_rasters = (\<lambda>paths out master skip. Inr paths),
     calc_proximity = (\<lambda>paths out dist skip. Inr paths)\<rparr>"

definition world0 :: world where
  "world0 = \<lparr>trace = [], npy_files = Map.empty, rasters_written = Map.empty\<rparr>"


section \<open>Properties of the sorting and summing steps\<close>

lemma snd_zip_upt: "map snd (zip vs [0..<length vs]) = [0..<length vs]"
  by (rule map_snd_zip) simp

lemma fst_zip_upt: "map fst (zip vs [0..<length vs]) = vs"
  by (rule map_fst_zip) simp

lemma zip_upt_nth: "(v, i) \<in> set (zip vs [0..<length vs]) \<Longrightarrow> i < length vs \<and> v = vs ! i"
  by (auto simp: set_zip)

lemma length_argsort: "length (argsort vs) = length vs"
  by (simp add: argsort_def)

lemma set_argsort: "set (argsort vs) = {..<length vs}"
proof -
  have "set (argsort vs) = set (map snd (sort_key fst (zip vs [0..<length vs])))"
    by (simp only: argsort_def)
  also have "\<dots> = snd ` set (zip vs [0..<length vs])"
    by (simp only: set_map set_sort)
  also have "\<dots> = set (map snd (zip vs [0..<length vs]))"
    by (simp only: set_map)
  also have "\<dots> = {..<length vs}"
    by (simp only: snd_zip_upt set_upt lessThan_atLeast0)
  finally show ?thesis .
qed

lemma sorted_data_argsort: "map (\<lambda>i. vs ! i) (argsort vs) = sort vs"
proof -
  let ?ps = "sort_key fst (zip vs [0..<length vs])"
  have a: "vs ! snd p = fst p" if "p \<in> set ?ps" for p
  proof -
    from that have "(fst p, snd p) \<in> set (zip vs [0..<length vs])"
      by (simp only: set_sort prod.collapse)
    from zip_upt_nth [OF this] show ?thesis by simp
  qed
  have "map (\<lambda>i. vs ! i) (argsort vs) = map (\<lambda>p. vs ! snd p) ?ps"
    by (simp add: argsort_def comp_def)
  also have "\<dots> = map fst ?ps" by (rule map_cong [OF refl]) (rule a)
  also have "\<dots> = sort vs"
  proof (rule properties_for_sort [symmetric])
    have "mset (map fst ?ps) = mset (map fst (zip vs [0..<length vs]))"
      by (simp only: mset_map mset_sort)
    then show "mset (map fst ?ps) = mset vs" by (simp only: fst_zip_upt)
    show "sorted (map fst ?ps)" by (rule sorted_sort_key)
  qed
  finally show ?thesis .
qed

lemma sorted_weights_uniform:
  "map (\<lambda>i. replicate (length vs) w ! i) (argsort vs) = replicate (length vs) w"
proof -
  have "map (\<lambda>i. replicate (length vs) w ! i) (argsort vs) = map (\<lambda>i. w) (argsort vs)"
    by (rule map_cong [OF refl]) (simp add: set_argsort)
  then show ?thesis by (simp add: map_replicate_const length_argsort)
qed

lemma length_cumsum_from [simp]: "length (cumsum_from acc ws) = length ws"
  by (induction ws arbitrary: acc) auto

lemma cumsum_from_replicate:
  "cumsum_from acc (replicate n w) = map (\<lambda>i. acc + (real i + 1) * w) [0..<n]"
proof (induction n arbitrary: acc)
  case 0
  then show ?case by simp
next
  case (Suc n)
  have "map (\<lambda>i. acc + (real i + 1) * w) [0..<Suc n]
        = (acc + (real 0 + 1) * w) # map (\<lambda>i. acc + (real i + 1) * w) (map Suc [0..<n])"
    by (simp only: upt_conv_Cons [of 0 "Suc n"] zero_less_Suc map_Suc_upt list.map)
  also have "\<dots> = (acc + w) # map (\<lambda>i. (acc + w) + (real i + 1) * w) [0..<n]"
    by (simp add: algebra_simps)
  finally show ?case using Suc.IH [of "acc + w"] by simp
qed


lemma takeWhile_length_mono:
  "(\<And>a. a \<in> set xs \<Longrightarrow> P a \<Longrightarrow> Q a) \<Longrightarrow> length (takeWhile P xs) \<le> length (takeWhile Q xs)"
  by (induction xs) auto

lemma search_index_mono: "x1 \<le> x2 \<Longrightarrow> search_index x1 arr \<le> search_index x2 arr"
  unfolding search_index_def by (rule takeWhile_length_mono) simp

lemma search_index_le: "search_index key arr \<le> length arr - 1"
  unfolding search_index_def using length_takeWhile_le [of "\<lambda>a. a \<le> key" "tl arr"] by simp

lemma search_index_lower:
  assumes "arr \<noteq> []" "arr ! 0 \<le> key"
  shows "arr ! search_index key arr \<le> key"
proof (cases "search_index key arr")
  case 0
  with assms show ?thesis by simp
next
  case (Suc k)
  let ?t = "takeWhile (\<lambda>a. a \<le> key) (tl arr)"
  have len: "length ?t = Suc k" using Suc by (simp add: search_index_def)
  have kt: "k < length (tl arr)" using len length_takeWhile_le [of "\<lambda>a. a \<le> key" "tl arr"] by linarith
  have "?t ! k \<in> set ?t" using len by (intro nth_mem) simp
  then have "?t ! k \<le> key" by (rule set_takeWhileD [THEN conjunct2])
  moreover have "?t ! k = tl arr ! k" using len by (intro takeWhile_nth) simp
  moreover have "tl arr ! k = arr ! Suc k" using kt by (simp add: nth_tl)
  ultimately show ?thesis using Suc by simp
qed

lemma search_index_upper:
  assumes "search_index key arr < length arr - 1"
  shows "key < arr ! (search_index key arr + 1)"
proof -
  let ?j = "search_index key arr"
  have j: "?j < length (tl arr)" using assms by simp
  then have "\<not> (tl arr ! ?j \<le> key)"
    unfolding search_index_def by (rule nth_length_takeWhile)
  moreover have "tl arr ! ?j = arr ! Suc ?j" using j by (simp add: nth_tl)
  ultimately show ?thesis by simp
qed


lemma segment_bounds:
  fixes a d t f :: real
  assumes "0 \<le> a" "0 < d" "0 \<le> t" "t \<le> d"
  shows "f \<le> a / d * t + f" and "a / d * t + f \<le> f + a"
proof -
  have "0 \<le> a / d * t" using assms by simp
  then show "f \<le> a / d * t + f" by simp
  have "a / d * t \<le> a / d * d" using assms by (intro mult_left_mono) simp_all
  also have "\<dots> = a" using assms by simp
  finally show "a / d * t + f \<le> f + a" by simp
qed

lemma segment_mono:
  fixes a d t1 t2 f :: real
  assumes "0 \<le> a" "0 < d" "t1 \<le> t2"
  shows "a / d * t1 + f \<le> a / d * t2 + f"
proof -
  have "0 \<le> a / d" using assms by simp
  then have "a / d * t1 \<le> a / d * t2" using assms by (intro mult_left_mono) simp_all
  then show ?thesis by simp
qed

lemma interp_inrange:
  assumes "2 \<le> length xp" "xp ! 0 \<le> x" "x \<le> xp ! (length xp - 1)"
  shows "interp x xp fp = Inr (interp_at x xp fp (search_index x xp))"
proof -
  from assms(1) have "xp \<noteq> []" "length xp \<noteq> 1" by auto
  with assms(2,3) show ?thesis
    by (simp add: interp_def interp_at_def Let_def)
qed

lemma interp_at_bounds:
  assumes srt: "sorted fp" and len: "length fp = length xp"
    and j: "j \<le> length xp - 1" and lo: "xp ! j \<le> x"
    and hi: "j < length xp - 1 \<Longrightarrow> x < xp ! (j + 1)"
  shows "fp ! j \<le> interp_at x xp fp j"
    and "j < length xp - 1 \<Longrightarrow> interp_at x xp fp j \<le> fp ! (j + 1)"
proof -
  show "fp ! j \<le> interp_at x xp fp j"
  proof (cases "j = length xp - 1 \<or> xp ! j = x")
    case True
    then show ?thesis by (auto simp: interp_at_def)
  next
    case False
    then have jl: "j < length xp - 1" and ne: "xp ! j \<noteq> x" using j by auto
    have a: "0 \<le> fp ! (j + 1) - fp ! j"
      using srt jl len by (simp add: sorted_iff_nth_mono)
    have d: "0 < xp ! (j + 1) - xp ! j" using lo hi [OF jl] by simp
    have "fp ! j \<le> (fp ! (j + 1) - fp ! j) / (xp ! (j + 1) - xp ! j) * (x - xp ! j) + fp ! j"
      using a d lo hi [OF jl] by (intro segment_bounds(1)) simp_all
    then show ?thesis using False by (simp add: interp_at_def)
  qed
  show "interp_at x xp fp j \<le> fp ! (j + 1)" if jl: "j < length xp - 1"
  proof -
    have a: "0 \<le> fp ! (j + 1) - fp ! j"
      using srt jl len by (simp add: sorted_iff_nth_mono)
    have d: "0 < xp ! (j + 1) - xp ! j" using lo hi [OF jl] by simp
    show ?thesis
    proof (cases "xp ! j = x")
      case True
      then show ?thesis using jl a by (simp add: interp_at_def)
    next
      case False
      have "(fp ! (j + 1) - fp ! j) / (xp ! (j + 1) - xp ! j) * (x - xp ! j) + fp ! j
            \<le> fp ! j + (fp ! (j + 1) - fp ! j)"
        using a d lo hi [OF jl] by (intro segment_bounds(2)) simp_all
      then show ?thesis using False jl by (simp add: interp_at_def)
    qed
  qed
qed

lemma interp_at_mono:
  assumes srt: "sorted fp" and len: "length fp = length xp"
    and j: "j \<le> length xp - 1" and lo: "xp ! j \<le> x1" and le: "x1 \<le> x2"
    and hi: "j < length xp - 1 \<Longrightarrow> x2 < xp ! (j + 1)"
  shows "interp_at x1 xp fp j \<le> interp_at x2 xp fp j"
proof (cases "j = length xp - 1")
  case True
  then show ?thesis by (simp add: interp_at_def)
next
  case False
  then have jl: "j < length xp - 1" using j by simp
  have a: "0 \<le> fp ! (j + 1) - fp ! j"
    using srt jl len by (simp add: sorted_iff_nth_mono)
  have d: "0 < xp ! (j + 1) - xp ! j" using lo le hi [OF jl] by simp
  show ?thesis
  proof (cases "xp ! j = x1")
    case True
    have "fp ! j \<le> interp_at x2 xp fp j"
      using srt len j lo le hi by (intro interp_at_bounds(1)) simp_all
    moreover have "interp_at x1 xp fp j = fp ! j" using True by (simp add: interp_at_def)
    ultimately show ?thesis by simp
  next
    case ne1: False
    then have ne2: "xp ! j \<noteq> x2" using lo le by simp
    have "(fp ! (j + 1) - fp ! j) / (xp ! (j + 1) - xp ! j) * (x1 - xp ! j) + fp ! j
          \<le> (fp ! (j + 1) - fp ! j) / (xp ! (j + 1) - xp ! j) * (x2 - xp ! j) + fp ! j"
      using a d le by (intro segment_mono) simp_all
    then show ?thesis using ne1 ne2 False by (simp add: interp_at_def)
  qed
qed


lemma interp_low:
  assumes "xp \<noteq> []" "x < xp ! 0" "sorted xp"
  shows "interp x xp fp = Inr (fp ! 0)"
proof -
  have "xp ! 0 \<le> xp ! (length xp - 1)"
    using assms(1,3) by (simp add: sorted_iff_nth_mono)
  with assms(2) have "\<not> x > xp ! (length xp - 1)" by simp
  with assms(1,2) show ?thesis by (simp add: interp_def Let_def)
qed

lemma interp_high:
  assumes "xp \<noteq> []" "xp ! (length xp - 1) < x" "sorted xp"
  shows "interp x xp fp = Inr (fp ! (length xp - 1))"
proof -
  have "xp ! 0 \<le> xp ! (length xp - 1)"
    using assms(1,3) by (simp add: sorted_iff_nth_mono)
  with assms(2) have "\<not> x < xp ! 0" by simp
  with assms(1,2) show ?thesis by (simp add: interp_def Let_def)
qed

lemma interp_single:
  assumes "length xp = 1"
  shows "interp x xp fp = Inr (fp ! 0)"
  using assms by (simp add: interp_def Let_def)

lemma interp_in_index_bounds:
  assumes "sorted xp" "2 \<le> length xp" "xp ! 0 \<le> x" "x \<le> xp ! (length xp - 1)"
  shows "search_index x xp \<le> length xp - 1"
    and "xp ! search_index x xp \<le> x"
    and "search_index x xp < length xp - 1 \<Longrightarrow> x < xp ! (search_index x xp + 1)"
proof -
  show "search_index x xp \<le> length xp - 1" by (rule search_index_le)
  have "xp \<noteq> []" using assms(2) by auto
  then show "xp ! search_index x xp \<le> x" using assms(3) by (rule search_index_lower)
  show "search_index x xp < length xp - 1 \<Longrightarrow> x < xp ! (search_index x xp + 1)"
    by (rule search_index_upper)
qed

lemma interp_position:
  fixes x1 x2 :: real
  assumes "xp \<noteq> []"
  shows "length xp = 1 \<or> x1 < xp ! 0 \<or> xp ! (length xp - 1) < x2
         \<or> (2 \<le> length xp \<and> xp ! 0 \<le> x1 \<and> x2 \<le> xp ! (length xp - 1))"
proof -
  from assms have "length xp \<noteq> 0" by simp
  then have "length xp = 1 \<or> 2 \<le> length xp" by linarith
  then show ?thesis by (auto simp: not_less)
qed

lemma interp_range:
  assumes sx: "sorted xp" and sf: "sorted fp" and len: "length fp = length xp"
    and ne: "xp \<noteq> []" and r: "interp x xp fp = Inr r"
  shows "fp ! 0 \<le> r \<and> r \<le> fp ! (length xp - 1)"
proof -
  have ends: "fp ! 0 \<le> fp ! (length xp - 1)"
    using sf len ne by (simp add: sorted_iff_nth_mono)
  consider (single) "length xp = 1" | (low) "x < xp ! 0" | (high) "xp ! (length xp - 1) < x"
    | (inside) "2 \<le> length xp" "xp ! 0 \<le> x" "x \<le> xp ! (length xp - 1)"
    using interp_position [OF ne, of x x] by blast
  then show ?thesis
  proof cases
    case single
    then show ?thesis using r by (simp add: interp_single)
  next
    case low
    then show ?thesis using r ends by (simp add: interp_low [OF ne _ sx])
  next
    case high
    then show ?thesis using r ends by (simp add: interp_high [OF ne _ sx])
  next
    case inside
    let ?j = "search_index x xp"
    note b = interp_in_index_bounds [OF sx inside]
    have r': "r = interp_at x xp fp ?j" using r by (simp add: interp_inrange [OF inside])
    have lo: "fp ! ?j \<le> r" unfolding r' using sf len b by (rule interp_at_bounds(1))
    have "fp ! 0 \<le> fp ! ?j" using sf b(1) len inside(1) by (simp add: sorted_iff_nth_mono)
    with lo have 1: "fp ! 0 \<le> r" by simp
    have 2: "r \<le> fp ! (length xp - 1)"
    proof (cases "?j = length xp - 1")
      case True
      then show ?thesis unfolding r' by (simp add: interp_at_def)
    next
      case False
      then have jl: "?j < length xp - 1" using b(1) by simp
      have "r \<le> fp ! (?j + 1)" unfolding r' using sf len b jl by (rule interp_at_bounds(2))
      moreover have "fp ! (?j + 1) \<le> fp ! (length xp - 1)"
        using sf jl len by (simp add: sorted_iff_nth_mono)
      ultimately show ?thesis by simp
    qed
    from 1 2 show ?thesis ..
  qed
qed

lemma interp_mono:
  assumes sx: "sorted xp" and sf: "sorted fp" and len: "length fp = length xp"
    and ne: "xp \<noteq> []" and le: "x1 \<le> x2"
    and r1: "interp x1 xp fp = Inr r1" and r2: "interp x2 xp fp = Inr r2"
  shows "r1 \<le> r2"
proof -
  note rg1 = interp_range [OF sx sf len ne r1]
  note rg2 = interp_range [OF sx sf len ne r2]
  consider (single) "length xp = 1" | (low) "x1 < xp ! 0" | (high) "xp ! (length xp - 1) < x2"
    | (inside) "2 \<le> length xp" "xp ! 0 \<le> x1" "x2 \<le> xp ! (length xp - 1)"
    using interp_position [OF ne, of x1 x2] by blast
  then show ?thesis
  proof cases
    case single
    then show ?thesis using r1 r2 by (simp add: interp_single)
  next
    case low
    then have "r1 = fp ! 0" using r1 by (simp add: interp_low [OF ne _ sx])
    then show ?thesis using rg2 by simp
  next
    case high
    then have "r2 = fp ! (length xp - 1)" using r2 by (simp add: interp_high [OF ne _ sx])
    then show ?thesis using rg1 by simp
  next
    case inside
    let ?j1 = "search_index x1 xp" and ?j2 = "search_index x2 xp"
    have in1: "2 \<le> length xp" "xp ! 0 \<le> x1" "x1 \<le> xp ! (length xp - 1)"
      using inside le by simp_all
    have in2: "2 \<le> length xp" "xp ! 0 \<le> x2" "x2 \<le> xp ! (length xp - 1)"
      using inside le by simp_all
    note b1 = interp_in_index_bounds [OF sx in1]
    note b2 = interp_in_index_bounds [OF sx in2]
    have e1: "r1 = interp_at x1 xp fp ?j1" using r1 by (simp add: interp_inrange [OF in1])
    have e2: "r2 = interp_at x2 xp fp ?j2" using r2 by (simp add: interp_inrange [OF in2])
    have jj: "?j1 \<le> ?j2" using le by (rule search_index_mono)
    show ?thesis
    proof (cases "?j1 = ?j2")
      case True
      have "interp_at x1 xp fp ?j1 \<le> interp_at x2 xp fp ?j1"
        using sf len b1(1) b1(2) le b2(3) [folded True] by (rule interp_at_mono)
      then show ?thesis using e1 e2 True by simp
    next
      case False
      then have lt: "?j1 < ?j2" using jj by simp
      then have jl: "?j1 < length xp - 1" using b2(1) by simp
      have "r1 \<le> fp ! (?j1 + 1)"
        unfolding e1 using sf len b1 jl by (rule interp_at_bounds(2))
      also have "fp ! (?j1 + 1) \<le> fp ! ?j2"
        using sf lt b2(1) len in1(1) by (simp add: sorted_iff_nth_mono)
      also have "fp ! ?j2 \<le> r2"
        unfolding e2 using sf len b2 by (rule interp_at_bounds(1))
      finally show ?thesis .
    qed
  qed
qed


lemma cumsum_from_Nil [simp]: "cumsum_from acc ws = [] \<longleftrightarrow> ws = []"
  by (cases ws) simp_all

lemma argsort_Nil [simp]: "argsort vs = [] \<longleftrightarrow> vs = []"
  using length_argsort [of vs] by (metis length_0_conv)

lemma hood_quantile_unfold:
  assumes "vs \<noteq> []" "length vs \<le> length weights"
  shows "hood_quantile vs weights q =
         interp q (intersect_of (cumsum (map (\<lambda>i. weights ! i) (argsort vs)))
                                (map (\<lambda>i. weights ! i) (argsort vs)))
                  (sort vs)"
proof -
  have "cumsum (map (\<lambda>i. weights ! i) (argsort vs)) \<noteq> []"
    using assms(1) by (simp add: cumsum_def)
  then show ?thesis
    using assms(2) by (simp add: hood_quantile_def Let_def sorted_data_argsort)
qed

lemma length_intersect_of [simp]:
  "length (intersect_of (cumsum ws) ws) = length ws"
  by (simp add: intersect_of_def cumsum_def)

lemma interp_total: "xp \<noteq> [] \<Longrightarrow> \<exists>r. interp x xp fp = Inr r"
  by (simp add: interp_def Let_def)

lemma cumsum_from_ge:
  "\<forall>w \<in> set ws. 0 \<le> w \<Longrightarrow> c \<in> set (cumsum_from acc ws) \<Longrightarrow> acc \<le> c"
proof (induction ws arbitrary: acc)
  case Nil
  then show ?case by simp
next
  case (Cons w ws)
  from Cons.prems(2) consider "c = acc + w" | "c \<in> set (cumsum_from (acc + w) ws)" by auto
  then show ?case
  proof cases
    case 1
    then show ?thesis using Cons.prems(1) by simp
  next
    case 2
    have "acc + w \<le> c" using Cons.prems(1) 2 by (intro Cons.IH) simp_all
    then show ?thesis using Cons.prems(1) by simp
  qed
qed

lemma half_positions_sorted:
  assumes "\<forall>w \<in> set ws. 0 \<le> w" "0 \<le> T"
  shows "sorted (map (\<lambda>(c, w). (c - 0.5 * w) / T) (zip (cumsum_from acc ws) ws))
         \<and> (\<forall>p \<in> set (map (\<lambda>(c, w). (c - 0.5 * w) / T) (zip (cumsum_from acc ws) ws)). acc / T \<le> p)"
  using assms(1)
proof (induction ws arbitrary: acc)
  case Nil
  then show ?case by simp
next
  case (Cons w ws)
  let ?rest = "map (\<lambda>(c, w). (c - 0.5 * w) / T) (zip (cumsum_from (acc + w) ws) ws)"
  have w0: "0 \<le> w" and ws0: "\<forall>w \<in> set ws. 0 \<le> w" using Cons.prems by simp_all
  note ih = Cons.IH [OF ws0, of "acc + w"]
  have hd_le: "acc / T \<le> (acc + w - 0.5 * w) / T"
    using w0 assms(2) by (intro divide_right_mono) simp_all
  have step: "(acc + w - 0.5 * w) / T \<le> (acc + w) / T"
    using w0 assms(2) by (intro divide_right_mono) simp_all
  have base: "acc / T \<le> (acc + w) / T"
    using w0 assms(2) by (intro divide_right_mono) simp_all
  have all_rest: "\<forall>p \<in> set ?rest. (acc + w) / T \<le> p" using ih by simp
  have above: "(acc + w - 0.5 * w) / T \<le> p" if "p \<in> set ?rest" for p
    using all_rest that step by (blast intro: order_trans)
  have above': "acc / T \<le> p" if "p \<in> set ?rest" for p
    using all_rest that base by (blast intro: order_trans)
  have srt: "sorted ?rest" using ih by (rule conjunct1)
  have "sorted (((acc + w - 0.5 * w) / T) # ?rest)"
    unfolding sorted_simps(2) using above srt by blast
  moreover have "\<forall>p \<in> set (((acc + w - 0.5 * w) / T) # ?rest). acc / T \<le> p"
    unfolding set_simps(2) using above' hd_le by blast
  ultimately show ?case by simp
qed

lemma last_cumsum_nonneg:
  assumes "\<forall>w \<in> set ws. 0 \<le> w" "ws \<noteq> []"
  shows "0 \<le> last (cumsum ws)"
proof -
  have "cumsum_from 0 ws \<noteq> []" using assms(2) by simp
  then have "last (cumsum_from 0 ws) \<in> set (cumsum_from 0 ws)" by (rule last_in_set)
  with assms(1) show ?thesis unfolding cumsum_def by (rule cumsum_from_ge)
qed

lemma intersect_sorted:
  assumes "\<forall>w \<in> set ws. 0 \<le> w" "ws \<noteq> []"
  shows "sorted (intersect_of (cumsum ws) ws)"
  unfolding intersect_of_def cumsum_def
  using half_positions_sorted [OF assms(1) last_cumsum_nonneg [OF assms], of 0]
  by (simp add: cumsum_def)


lemma half_le_iff:
  assumes "0 < n"
  shows "(2 * real i + 1) / (2 * real n) \<le> 1 / 2 \<longleftrightarrow> 2 * i + 1 \<le> n"
proof -
  have pos: "0 < 2 * real n" using assms by simp
  have e1: "1 / 2 * (2 * real n) = real n" by simp
  have e2: "2 * real i + 1 = real (2 * i + 1)" by simp
  show ?thesis
    unfolding pos_divide_le_eq [OF pos] e1 e2 by (rule of_nat_le_iff)
qed

lemma half_less_iff:
  assumes "0 < n"
  shows "1 / 2 < (2 * real i + 1) / (2 * real n) \<longleftrightarrow> n < 2 * i + 1"
proof -
  have "1 / 2 < (2 * real i + 1) / (2 * real n) \<longleftrightarrow> \<not> (2 * real i + 1) / (2 * real n) \<le> 1 / 2"
    by (rule not_le [symmetric])
  also have "\<dots> \<longleftrightarrow> \<not> 2 * i + 1 \<le> n" by (simp only: half_le_iff [OF assms])
  also have "\<dots> \<longleftrightarrow> n < 2 * i + 1" by (rule not_le)
  finally show ?thesis .
qed

lemma zip_map_replicate:
  "zip (map f xs) (replicate (length xs) w) = map (\<lambda>x. (f x, w)) xs"
  by (induction xs) simp_all


lemma uniform_position:
  fixes w :: real
  assumes "0 < n" "0 < w"
  shows "(0 + (real i + 1) * w - 0.5 * w) / (real n * w) = (2 * real i + 1) / (2 * real n)"
proof -
  have num: "0 + (real i + 1) * w - 0.5 * w = w * ((2 * real i + 1) / 2)"
    by (simp add: algebra_simps)
  have den: "real n * w = w * real n" by (rule mult.commute)
  have "w * ((2 * real i + 1) / 2) / (w * real n) = ((2 * real i + 1) / 2) / real n"
    using assms(2) by simp
  also have "\<dots> = (2 * real i + 1) / (2 * real n)" by simp
  finally show ?thesis unfolding num den .
qed

lemma intersect_uniform:
  assumes "0 < n" "0 < w"
  shows "intersect_of (cumsum (replicate n w)) (replicate n w)
         = map (\<lambda>i. (2 * real i + 1) / (2 * real n)) [0..<n]"
proof -
  let ?f = "\<lambda>i. 0 + (real i + 1) * w"
  have cs: "cumsum (replicate n w) = map ?f [0..<n]"
    unfolding cumsum_def by (rule cumsum_from_replicate)
  have ne: "[0..<n] \<noteq> []" using assms(1) by simp
  have ln: "last [0..<n] = n - 1" using assms(1) by (cases n) simp_all
  have rn: "real (n - 1) + 1 = real n" using assms(1) by (cases n) simp_all
  have "last (map ?f [0..<n]) = ?f (last [0..<n])" using ne by (rule last_map)
  also have "\<dots> = real n * w" unfolding ln rn by simp
  finally have l: "last (map ?f [0..<n]) = real n * w" .
  have z: "zip (map ?f [0..<n]) (replicate n w) = map (\<lambda>i. (?f i, w)) [0..<n]"
    using zip_map_replicate [of ?f "[0..<n]" w] by simp
  have "intersect_of (cumsum (replicate n w)) (replicate n w)
        = map (\<lambda>i. (?f i - 0.5 * w) / (real n * w)) [0..<n]"
    unfolding intersect_of_def cs l z by (simp add: comp_def)
  also have "\<dots> = map (\<lambda>i. (2 * real i + 1) / (2 * real n)) [0..<n]"
    by (rule map_cong [OF refl]) (rule uniform_position [OF assms])
  finally show ?thesis .
qed


lemma seg_half:
  fixes a b N :: real
  assumes "0 < N"
  shows "(b - a) / (1 / N) * (1 / (2 * N)) + a = (a + b) / 2"
proof -
  have "(b - a) / (1 / N) * (1 / (2 * N)) = (b - a) * N * (1 / (2 * N))" by simp
  also have "\<dots> = (b - a) * (N / (2 * N))" by simp
  also have "N / (2 * N) = 1 / 2" using assms by simp
  finally have "(b - a) / (1 / N) * (1 / (2 * N)) = (b - a) * (1 / 2)" .
  then show ?thesis by (simp add: algebra_simps)
qed

lemma pos_gap:
  fixes J N :: real
  assumes "0 < N"
  shows "(2 * (J + 1) + 1) / (2 * N) - (2 * J + 1) / (2 * N) = 1 / N"
proof -
  have "(2 * (J + 1) + 1) / (2 * N) - (2 * J + 1) / (2 * N) = ((2 * (J + 1) + 1) - (2 * J + 1)) / (2 * N)"
    by (rule diff_divide_distrib [symmetric])
  also have "(2 * (J + 1) + 1) - (2 * J + 1) = 2" by simp
  also have "2 / (2 * N) = 1 / N" by simp
  finally show ?thesis .
qed

lemma pos_half_gap:
  fixes J N :: real
  assumes "0 < N" "N = 2 * (J + 1)"
  shows "1 / 2 - (2 * J + 1) / (2 * N) = 1 / (2 * N)"
proof -
  have "1 / 2 = N / (2 * N)" using assms(1) by simp
  then have "1 / 2 - (2 * J + 1) / (2 * N) = N / (2 * N) - (2 * J + 1) / (2 * N)" by simp
  also have "\<dots> = (N - (2 * J + 1)) / (2 * N)" by (rule diff_divide_distrib [symmetric])
  also have "N - (2 * J + 1) = 1" using assms(2) by simp
  finally show ?thesis .
qed

lemma even_half:
  fixes j n :: nat
  assumes "2 * (j + 1) = n"
  shows "j + 1 < n" and "n div 2 = j + 1"
  using assms by auto

lemma odd_half:
  fixes j n :: nat
  assumes "2 * j + 1 = n"
  shows "j = n div 2"
  using assms by auto

lemma standard_median_odd:
  "odd (length vs) \<Longrightarrow> standard_median vs = sort vs ! (length vs div 2)"
  by (simp add: standard_median_def Let_def)

lemma standard_median_even:
  "even (length vs) \<Longrightarrow>
   standard_median vs = (sort vs ! (length vs div 2 - 1) + sort vs ! (length vs div 2)) / 2"
  by (simp add: standard_median_def Let_def)

lemma interp_at_hit: "xp ! j = x \<Longrightarrow> interp_at x xp fp j = fp ! j"
  by (simp add: interp_at_def)

lemma interp_at_between:
  "j \<noteq> length xp - 1 \<Longrightarrow> xp ! j \<noteq> x \<Longrightarrow>
   interp_at x xp fp j = (fp ! (j + 1) - fp ! j) / (xp ! (j + 1) - xp ! j) * (x - xp ! j) + fp ! j"
  by (simp add: interp_at_def)

lemma uniform_index:
  assumes n: "2 \<le> n"
    and lo: "(2 * real j + 1) / (2 * real n) \<le> 1 / 2"
    and hi: "j < n - 1 \<Longrightarrow> 1 / 2 < (2 * real (j + 1) + 1) / (2 * real n)"
    and j: "j \<le> n - 1"
  shows "j = (n - 1) div 2"
proof -
  have n0: "0 < n" using n by simp
  have a: "2 * j + 1 \<le> n" using lo by (simp only: half_le_iff [OF n0])
  then have jl: "j < n - 1" using n by linarith
  have "n < 2 * (j + 1) + 1" using hi [OF jl] by (simp only: half_less_iff [OF n0])
  with a show ?thesis by presburger
qed


section \<open>The loops of \<open>s1_collapse\<close> in closed form\<close>

lemma hood_step_lengths:
  "length (hood_values (hood_step arr offs ws fw nd nv x y h n)) = length (hood_values h)"
  "length (hood_weights (hood_step arr offs ws fw nd nv x y h n)) = length (hood_weights h)"
  by (simp_all add: hood_step_def Let_def)

lemma foldl_hood_step_lengths:
  "length (hood_values (foldl (hood_step arr offs ws fw nd nv x y) h ns)) = length (hood_values h)
   \<and> length (hood_weights (foldl (hood_step arr offs ws fw nd nv x y) h ns)) = length (hood_weights h)"
  by (induction ns arbitrary: h) (simp_all add: hood_step_lengths)

lemma gather_lengths:
  "length (hood_values (gather arr offs ws fw nd nv x y)) = length offs"
  "length (hood_weights (gather arr offs ws fw nd nv x y)) = length offs"
  using foldl_hood_step_lengths [of arr offs ws fw nd nv x y
      "\<lparr>hood_values = replicate (length offs) 0, hood_weights = replicate (length offs) 0,
        weight_sum = 0\<rparr>" "[0..<length offs]"]
  by (simp_all add: gather_def Let_def)

lemma gather_empty: "weight_sum (gather arr [] ws fw nd nv x y) = 0"
  by (simp add: gather_def)

lemma hood_quantile_total:
  assumes "vs \<noteq> []" "length vs \<le> length weights"
  shows "\<exists>r. hood_quantile vs weights q = Inr r"
proof -
  have "intersect_of (cumsum (map (\<lambda>i. weights ! i) (argsort vs)))
          (map (\<lambda>i. weights ! i) (argsort vs)) \<noteq> []"
  proof
    assume "intersect_of (cumsum (map (\<lambda>i. weights ! i) (argsort vs)))
          (map (\<lambda>i. weights ! i) (argsort vs)) = []"
    then have "length (intersect_of (cumsum (map (\<lambda>i. weights ! i) (argsort vs)))
          (map (\<lambda>i. weights ! i) (argsort vs))) = 0" by simp
    then show False using assms(1) by (simp add: length_argsort)
  qed
  then show ?thesis
    unfolding hood_quantile_unfold [OF assms] by (rule interp_total)
qed

lemma pixel_body_value:
  "pixel_body q nd nv wtd x y st =
     Inr (case pixel_value (st_arr st) (st_offsets st) (st_weights st) (st_feather st)
                 q nd nv wtd x y of
            None \<Rightarrow> st
          | Some v \<Rightarrow> st\<lparr>st_result := setitem2 (st_result st) x y v\<rparr>)"
proof -
  let ?h = "gather (st_arr st) (st_offsets st) (st_weights st) (st_feather st) nd nv x y"
  let ?hw = "map (\<lambda>w. w / weight_sum ?h) (hood_weights ?h)"
  show ?thesis
  proof (cases "weight_sum ?h > 0 \<and> wtd")
    case True
    then have "st_offsets st \<noteq> []" using gather_empty by fastforce
    then have "hood_values ?h \<noteq> []"
      using gather_lengths(1) [of "st_arr st" "st_offsets st" "st_weights st" "st_feather st" nd nv x y]
      by (metis length_0_conv)
    moreover have "length (hood_values ?h) \<le> length ?hw"
      by (simp add: gather_lengths)
    ultimately obtain r where "hood_quantile (hood_values ?h) ?hw q = Inr r"
      using hood_quantile_total by blast
    then show ?thesis using True by (simp add: pixel_body_def pixel_value_def Let_def)
  next
    case False
    then show ?thesis by (auto simp add: pixel_body_def pixel_value_def Let_def)
  qed
qed


lemma wf2_np_full: "wf2 R C (np_full (R, C) v)"
  by (simp add: wf2_def np_full_def)

lemma wf2_row: "wf2 R C r \<Longrightarrow> x < R \<Longrightarrow> length (rowlist r ! x) = C"
  by (simp add: wf2_def)

lemma wf2_setitem2:
  assumes "wf2 R C r" "x < R"
  shows "wf2 R C (setitem2 r x y v)"
proof -
  have "length row = C" if "row \<in> set ((rowlist r)[x := (rowlist r ! x)[y := v]])" for row
  proof -
    from that have "row \<in> insert ((rowlist r ! x)[y := v]) (set (rowlist r))"
      using set_update_subset_insert by fastforce
    then show ?thesis using assms by (auto simp: wf2_def)
  qed
  then show ?thesis using assms by (simp add: wf2_def setitem2_def)
qed

lemma nth_setitem2:
  assumes "wf2 R C r" "x < R" "y < C" "x' < R" "y' < C"
  shows "rowlist (setitem2 r x y v) ! x' ! y'
         = (if x' = x \<and> y' = y then v else rowlist r ! x' ! y')"
proof (cases "x' = x")
  case True
  have "length (rowlist r) = R" using assms(1) by (simp add: wf2_def)
  then have "rowlist (setitem2 r x y v) ! x = (rowlist r ! x)[y := v]"
    using assms(2) by (simp add: setitem2_def)
  moreover have "y < length (rowlist r ! x)" using wf2_row [OF assms(1,2)] assms(3) by simp
  ultimately show ?thesis using True by (simp add: nth_list_update)
next
  case False
  then show ?thesis by (simp add: setitem2_def)
qed

lemma pixel_body_step:
  assumes wf: "wf2 R C (st_result st)" and x: "x < R" and y: "y < C"
  shows "\<exists>r1. pixel_body q nd nv wtd x y st = Inr (st\<lparr>st_result := r1\<rparr>) \<and> wf2 R C r1
     \<and> (\<forall>x' < R. \<forall>y' < C. rowlist r1 ! x' ! y' =
          (if x' = x \<and> y' = y
           then (case pixel_value (st_arr st) (st_offsets st) (st_weights st) (st_feather st)
                        q nd nv wtd x y of
                   None \<Rightarrow> rowlist (st_result st) ! x ! y | Some v \<Rightarrow> v)
           else rowlist (st_result st) ! x' ! y'))"
proof (cases "pixel_value (st_arr st) (st_offsets st) (st_weights st) (st_feather st) q nd nv wtd x y")
  case None
  have "pixel_body q nd nv wtd x y st = Inr (st\<lparr>st_result := st_result st\<rparr>)"
    by (simp add: pixel_body_value None)
  moreover have "\<forall>x' < R. \<forall>y' < C. rowlist (st_result st) ! x' ! y' =
          (if x' = x \<and> y' = y
           then (case pixel_value (st_arr st) (st_offsets st) (st_weights st) (st_feather st)
                        q nd nv wtd x y of
                   None \<Rightarrow> rowlist (st_result st) ! x ! y | Some v \<Rightarrow> v)
           else rowlist (st_result st) ! x' ! y')"
    by (simp add: None)
  ultimately show ?thesis using wf by blast
next
  case (Some v)
  let ?r1 = "setitem2 (st_result st) x y v"
  have "pixel_body q nd nv wtd x y st = Inr (st\<lparr>st_result := ?r1\<rparr>)"
    by (simp add: pixel_body_value Some)
  moreover have "wf2 R C ?r1" using wf x by (rule wf2_setitem2)
  moreover have "\<forall>x' < R. \<forall>y' < C. rowlist ?r1 ! x' ! y' =
          (if x' = x \<and> y' = y
           then (case pixel_value (st_arr st) (st_offsets st) (st_weights st) (st_feather st)
                        q nd nv wtd x y of
                   None \<Rightarrow> rowlist (st_result st) ! x ! y | Some v \<Rightarrow> v)
           else rowlist (st_result st) ! x' ! y')"
    using nth_setitem2 [OF wf x y] by (simp add: Some)
  ultimately show ?thesis by blast
qed


lemma run_pixels_inv:
  assumes "\<forall>p \<in> set ps. fst p < R \<and> snd p < C" and "wf2 R C (st_result st)"
  shows "\<exists>r'. run_pixels (pixel_body q nd nv wtd) ps st = Inr (st\<lparr>st_result := r'\<rparr>)
     \<and> wf2 R C r'
     \<and> (\<forall>x < R. \<forall>y < C. rowlist r' ! x ! y =
          (if (x, y) \<in> set ps
           then (case pixel_value (st_arr st) (st_offsets st) (st_weights st) (st_feather st)
                        q nd nv wtd x y of
                   None \<Rightarrow> rowlist (st_result st) ! x ! y | Some v \<Rightarrow> v)
           else rowlist (st_result st) ! x ! y))"
  using assms
proof (induction ps arbitrary: st)
  case Nil
  have "run_pixels (pixel_body q nd nv wtd) [] st = Inr (st\<lparr>st_result := st_result st\<rparr>)"
    by simp
  then show ?case using Nil.prems(2) by fastforce
next
  case (Cons p ps)
  let ?PV = "pixel_value (st_arr st) (st_offsets st) (st_weights st) (st_feather st) q nd nv wtd"
  let ?old = "rowlist (st_result st)"
  have px: "fst p < R" and py: "snd p < C" using Cons.prems(1) by simp_all
  have rest: "\<forall>p \<in> set ps. fst p < R \<and> snd p < C" using Cons.prems(1) by simp
  obtain r1 where b: "pixel_body q nd nv wtd (fst p) (snd p) st = Inr (st\<lparr>st_result := r1\<rparr>)"
    and wf1: "wf2 R C r1"
    and v1: "\<forall>x' < R. \<forall>y' < C. rowlist r1 ! x' ! y' =
          (if x' = fst p \<and> y' = snd p
           then (case ?PV (fst p) (snd p) of None \<Rightarrow> ?old ! fst p ! snd p | Some v \<Rightarrow> v)
           else ?old ! x' ! y')"
    using pixel_body_step [OF Cons.prems(2) px py, of q nd nv wtd] by blast
  let ?st1 = "st\<lparr>st_result := r1\<rparr>"
  have wf1': "wf2 R C (st_result ?st1)" using wf1 by simp
  obtain r' where run: "run_pixels (pixel_body q nd nv wtd) ps ?st1 = Inr (?st1\<lparr>st_result := r'\<rparr>)"
    and wf': "wf2 R C r'"
    and v': "\<forall>x < R. \<forall>y < C. rowlist r' ! x ! y =
          (if (x, y) \<in> set ps
           then (case pixel_value (st_arr ?st1) (st_offsets ?st1) (st_weights ?st1) (st_feather ?st1)
                        q nd nv wtd x y of
                   None \<Rightarrow> rowlist (st_result ?st1) ! x ! y | Some v \<Rightarrow> v)
           else rowlist (st_result ?st1) ! x ! y)"
    using Cons.IH [OF rest wf1'] by blast
  have run': "run_pixels (pixel_body q nd nv wtd) (p # ps) st = Inr (st\<lparr>st_result := r'\<rparr>)"
    using b run by simp
  have "rowlist r' ! x ! y =
          (if (x, y) \<in> set (p # ps)
           then (case ?PV x y of None \<Rightarrow> ?old ! x ! y | Some v \<Rightarrow> v)
           else ?old ! x ! y)" if xy: "x < R" "y < C" for x y
  proof -
    have a: "rowlist r' ! x ! y =
          (if (x, y) \<in> set ps
           then (case ?PV x y of None \<Rightarrow> rowlist r1 ! x ! y | Some v \<Rightarrow> v)
           else rowlist r1 ! x ! y)"
      using v' xy by (simp split: option.split)
    have c: "rowlist r1 ! x ! y =
          (if x = fst p \<and> y = snd p
           then (case ?PV (fst p) (snd p) of None \<Rightarrow> ?old ! fst p ! snd p | Some v \<Rightarrow> v)
           else ?old ! x ! y)"
      using v1 xy by simp
    have pe: "(x, y) = p \<longleftrightarrow> x = fst p \<and> y = snd p" by auto
    show ?thesis
    proof (cases "?PV x y")
      case None
      then show ?thesis unfolding a c set_simps(2) insert_iff pe by auto
    next
      case (Some v)
      then show ?thesis unfolding a c set_simps(2) insert_iff pe by auto
    qed
  qed
  then show ?case using run' wf' by blast
qed


lemma wf2_eqI:
  assumes "wf2 R C r" "wf2 R C r'"
    and "\<And>x y. x < R \<Longrightarrow> y < C \<Longrightarrow> rowlist r ! x ! y = rowlist r' ! x ! y"
  shows "r = r'"
proof -
  have "rowlist r = rowlist r'"
  proof (rule nth_equalityI)
    show "length (rowlist r) = length (rowlist r')" using assms(1,2) by (simp add: wf2_def)
  next
    fix x assume "x < length (rowlist r)"
    then have x: "x < R" using assms(1) by (simp add: wf2_def)
    show "rowlist r ! x = rowlist r' ! x"
    proof (rule nth_equalityI)
      show "length (rowlist r ! x) = length (rowlist r' ! x)"
        using wf2_row [OF assms(1) x] wf2_row [OF assms(2) x] by simp
    next
      fix y assume "y < length (rowlist r ! x)"
      then have "y < C" using wf2_row [OF assms(1) x] by simp
      with x show "rowlist r ! x ! y = rowlist r' ! x ! y" by (rule assms(3))
    qed
  qed
  moreover have "ncols r = ncols r'" using assms(1,2) by (simp add: wf2_def)
  ultimately show ?thesis by simp
qed

lemma wf2_collapsed:
  "wf2 (shape0 arr) (shape1 arr) (collapsed arr offs ws fw q nd nv wtd)"
  by (simp add: wf2_def collapsed_def)

lemma nth_collapsed:
  assumes "x < shape0 arr" "y < shape1 arr"
  shows "rowlist (collapsed arr offs ws fw q nd nv wtd) ! x ! y
         = (case pixel_value arr offs ws fw q nd nv wtd x y of
              None \<Rightarrow> (if nd then nv else 0) | Some v \<Rightarrow> v)"
  using assms by (simp add: collapsed_def)

lemma nth_np_full: "x < R \<Longrightarrow> y < C \<Longrightarrow> rowlist (np_full (R, C) v) ! x ! y = v"
  by (simp add: np_full_def)

lemma initial_state_fields:
  "st_arr (initial_state arr offs ws fw nd nv) = arr"
  "st_offsets (initial_state arr offs ws fw nd nv) = offs"
  "st_weights (initial_state arr offs ws fw nd nv) = ws"
  "st_feather (initial_state arr offs ws fw nd nv) = fw"
  "st_result (initial_state arr offs ws fw nd nv) = np_full (shape0 arr, shape1 arr) (if nd then nv else 0)"
  by (simp_all add: initial_state_def)

lemma set_pixel_order: "set (pixel_order arr) = {..<shape0 arr} \<times> {..<shape1 arr}"
  by (auto simp: pixel_order_def)

lemma run_pixels_any_order:
  assumes ps: "set ps = set (pixel_order arr)"
  shows "run_pixels (pixel_body q nd nv wtd) ps (initial_state arr offs ws fw nd nv)
         = Inr ((initial_state arr offs ws fw nd nv)
                  \<lparr>st_result := collapsed arr offs ws fw q nd nv wtd\<rparr>)"
proof -
  let ?st = "initial_state arr offs ws fw nd nv"
  let ?R = "shape0 arr" and ?C = "shape1 arr"
  have inr: "\<forall>p \<in> set ps. fst p < ?R \<and> snd p < ?C"
    unfolding ps set_pixel_order by auto
  have wf0: "wf2 ?R ?C (st_result ?st)"
    unfolding initial_state_fields by (rule wf2_np_full)
  obtain r' where run: "run_pixels (pixel_body q nd nv wtd) ps ?st = Inr (?st\<lparr>st_result := r'\<rparr>)"
    and wf': "wf2 ?R ?C r'"
    and v': "\<forall>x < ?R. \<forall>y < ?C. rowlist r' ! x ! y =
          (if (x, y) \<in> set ps
           then (case pixel_value (st_arr ?st) (st_offsets ?st) (st_weights ?st) (st_feather ?st)
                        q nd nv wtd x y of
                   None \<Rightarrow> rowlist (st_result ?st) ! x ! y | Some v \<Rightarrow> v)
           else rowlist (st_result ?st) ! x ! y)"
    using run_pixels_inv [OF inr wf0, of q nd nv wtd] by blast
  have "r' = collapsed arr offs ws fw q nd nv wtd"
  proof (rule wf2_eqI [OF wf' wf2_collapsed])
    fix x y assume xy: "x < ?R" "y < ?C"
    then have mem: "(x, y) \<in> set ps" unfolding ps set_pixel_order by simp
    have "rowlist r' ! x ! y =
          (case pixel_value arr offs ws fw q nd nv wtd x y of
             None \<Rightarrow> rowlist (np_full (?R, ?C) (if nd then nv else 0)) ! x ! y | Some v \<Rightarrow> v)"
      using v' xy mem unfolding initial_state_fields by simp
    also have "\<dots> = (case pixel_value arr offs ws fw q nd nv wtd x y of
             None \<Rightarrow> (if nd then nv else 0) | Some v \<Rightarrow> v)"
      unfolding nth_np_full [OF xy] ..
    finally show "rowlist r' ! x ! y = rowlist (collapsed arr offs ws fw q nd nv wtd) ! x ! y"
      unfolding nth_collapsed [OF xy] .
  qed
  with run show ?thesis by simp
qed

lemma s1_collapse_collapsed:
  "s1_collapse arr offs ws fw q nd nv wtd = Inr (collapsed arr offs ws fw q nd nv wtd)"
  by (simp add: s1_collapse_def run_pixels_any_order [OF refl])


lemma foldl_hood_step_skipped:
  assumes "\<forall>n \<in> set ns. skipped arr (offs ! n) nd nv x y"
  shows "foldl (hood_step arr offs ws fw nd nv x y) h ns = h"
  using assms by (induction ns arbitrary: h) (simp_all add: hood_step_def Let_def)

lemma gather_all_skipped:
  assumes "\<forall>n < length offs. skipped arr (offs ! n) nd nv x y"
  shows "weight_sum (gather arr offs ws fw nd nv x y) = 0"
proof -
  have "\<forall>n \<in> set [0..<length offs]. skipped arr (offs ! n) nd nv x y"
    using assms by simp
  then show ?thesis by (simp add: gather_def Let_def foldl_hood_step_skipped)
qed

lemma pixel_value_no_weight:
  assumes "weight_sum (gather arr offs ws fw nd nv x y) \<le> 0"
  shows "pixel_value arr offs ws fw q nd nv wtd x y = None"
  using assms by (simp add: pixel_value_def Let_def)


text \<open>The equations that evaluate a call on concrete arrays.\<close>

lemmas eval_collapse =
  s1_collapse_collapsed collapsed_def pixel_value_def gather_def hood_step_def skipped_def
  candidate_of_def clamp_axis_def getitem3_def wrap_index_def ones_like_def Let_def upt_rec
  hood_quantile_def argsort_def cumsum_def interp_def search_index_def intersect_of_def


section \<open>The placement loop of \<open>sort_rasters\<close>\<close>

lemma place_pos_odd: "place_pos m (2 * c + 1) = int m - int (c + 1)"
  by (simp add: place_pos_def)

lemma place_pos_even: "place_pos m (2 * c) = int m + int c"
  by (simp add: place_pos_def)

lemma nat_parity_cases:
  fixes k :: nat
  obtains (even) c where "k = 2 * c" | (odd) c where "k = 2 * c + 1"
  by (cases "even k") (auto elim: evenE oddE)

lemma place_pos_range:
  assumes "i < N"
  shows "0 \<le> place_pos (N div 2) i \<and> place_pos (N div 2) i < int N"
proof (cases i rule: nat_parity_cases)
  case (even c)
  then have "2 * c < N" using assms by simp
  then have "int (N div 2) + int c < int N" by linarith
  then show ?thesis unfolding even place_pos_even by simp
next
  case (odd c)
  then have "2 * c + 1 < N" using assms by simp
  then have "int (c + 1) \<le> int (N div 2)" by linarith
  moreover have "int (N div 2) - int (c + 1) < int N" by linarith
  ultimately show ?thesis unfolding odd place_pos_odd by simp
qed

lemma place_pos_inj:
  assumes "place_pos m i = place_pos m j"
  shows "i = j"
proof (cases i rule: nat_parity_cases)
  case ie: (even c)
  show ?thesis
  proof (cases j rule: nat_parity_cases)
    case (even d)
    from assms have "int m + int c = int m + int d"
      unfolding ie even place_pos_even .
    then show ?thesis unfolding ie even by simp
  next
    case (odd d)
    from assms have "int m + int c = int m - int (d + 1)"
      unfolding ie odd place_pos_even place_pos_odd .
    then have False by linarith
    then show ?thesis ..
  qed
next
  case io: (odd c)
  show ?thesis
  proof (cases j rule: nat_parity_cases)
    case (even d)
    from assms have "int m - int (c + 1) = int m + int d"
      unfolding io even place_pos_even place_pos_odd .
    then have False by linarith
    then show ?thesis ..
  next
    case (odd d)
    from assms have "int m - int (c + 1) = int m - int (d + 1)"
      unfolding io odd place_pos_odd .
    then show ?thesis unfolding io odd by simp
  qed
qed

lemma place_pos_zero: "place_pos m 0 = int m"
  by (simp add: place_pos_def)

lemma add_after_left: "odd k \<Longrightarrow> (Suc k + 1) div 2 = (k + 1) div 2"
  by (auto elim!: oddE)

lemma add_after_right: "even k \<Longrightarrow> int ((Suc k + 1) div 2) = int ((k + 1) div 2) + 1"
  by (auto elim!: evenE)

lemma pos_left: "odd k \<Longrightarrow> int m - int ((k + 1) div 2) = place_pos m k"
  by (simp add: place_pos_def)

lemma pos_right: "even k \<Longrightarrow> int m + int ((k + 1) div 2) = place_pos m k"
  by (auto simp: place_pos_def elim!: evenE)

lemma setitem_in_range:
  assumes "0 \<le> i" "i < int (length xs)"
  shows "setitem xs i v = Inr (xs[nat i := v])"
  using assms by (simp add: setitem_def Let_def)


lemma place_loop_left:
  assumes "k \<noteq> 0" "setitem copy (m - a) (Path r) = Inr c'"
  shows "place_loop ((k, r) # rest) copy m a True = place_loop rest c' m a False"
  using assms by simp

lemma place_loop_right:
  assumes "k \<noteq> 0" "setitem copy (m + a) (Path r) = Inr c'"
  shows "place_loop ((k, r) # rest) copy m a False = place_loop rest c' m (a + 1) True"
  using assms by simp

lemma place_loop_step:
  assumes k: "1 \<le> k" "k < N" and lc: "length copy = N"
  shows "place_loop ((k, r) # rest) copy (int (N div 2)) (int ((k + 1) div 2)) (odd k)
         = place_loop rest (copy[nat (place_pos (N div 2) k) := Path r]) (int (N div 2))
             (int ((Suc k + 1) div 2)) (odd (Suc k))"
proof -
  note rg = place_pos_range [OF k(2)]
  have rg': "0 \<le> place_pos (N div 2) k" "place_pos (N div 2) k < int (length copy)"
    using rg lc by simp_all
  have set: "setitem copy (place_pos (N div 2) k) (Path r)
             = Inr (copy[nat (place_pos (N div 2) k) := Path r])"
    using rg' by (rule setitem_in_range)
  have k0: "k \<noteq> 0" using k(1) by simp
  show ?thesis
  proof (cases "odd k")
    case True
    have o: "odd k = True" "odd (Suc k) = False" using True by simp_all
    have s: "setitem copy (int (N div 2) - int ((k + 1) div 2)) (Path r)
             = Inr (copy[nat (place_pos (N div 2) k) := Path r])"
      unfolding pos_left [OF True] by (rule set)
    show ?thesis
      unfolding o add_after_left [OF True] using k0 s by (rule place_loop_left)
  next
    case False
    then have ev: "even k" by simp
    have o: "odd k = False" "odd (Suc k) = True" using False by simp_all
    have s: "setitem copy (int (N div 2) + int ((k + 1) div 2)) (Path r)
             = Inr (copy[nat (place_pos (N div 2) k) := Path r])"
      unfolding pos_right [OF ev] by (rule set)
    show ?thesis
      unfolding o add_after_right [OF ev] using k0 s by (rule place_loop_right)
  qed
qed

lemma place_loop_inv:
  assumes "N - k = n" and "1 \<le> k" and "k \<le> N" and "length copy = N" and "length B = N"
  shows "\<exists>copy'. place_loop (zip [k..<N] (drop k B)) copy (int (N div 2))
                    (int ((k + 1) div 2)) (odd k) = Inr copy'
     \<and> length copy' = N
     \<and> (\<forall>i. k \<le> i \<and> i < N \<longrightarrow> copy' ! nat (place_pos (N div 2) i) = Path (B ! i))
     \<and> (\<forall>p < N. (\<forall>i. k \<le> i \<and> i < N \<longrightarrow> place_pos (N div 2) i \<noteq> int p)
            \<longrightarrow> copy' ! p = copy ! p)"
  using assms
proof (induction n arbitrary: k copy)
  case 0
  then have "k = N" by simp
  then have "place_loop (zip [k..<N] (drop k B)) copy (int (N div 2))
                    (int ((k + 1) div 2)) (odd k) = Inr copy" by simp
  moreover have "\<not> (k \<le> i \<and> i < N)" for i using \<open>k = N\<close> by simp
  ultimately show ?case using "0.prems"(4) by blast
next
  case (Suc n)
  then have kN: "k < N" by simp
  let ?m = "N div 2"
  let ?pk = "nat (place_pos ?m k)"
  let ?c1 = "copy[?pk := Path (B ! k)]"
  have kB: "k < length B" using kN Suc.prems(5) by simp
  have z: "zip [k..<N] (drop k B) = (k, B ! k) # zip [Suc k..<N] (drop (Suc k) B)"
    using kN kB by (simp add: upt_conv_Cons Cons_nth_drop_Suc [symmetric])
  have step: "place_loop (zip [k..<N] (drop k B)) copy (int ?m) (int ((k + 1) div 2)) (odd k)
        = place_loop (zip [Suc k..<N] (drop (Suc k) B)) ?c1 (int ?m)
            (int ((Suc k + 1) div 2)) (odd (Suc k))"
    unfolding z using Suc.prems(2) kN Suc.prems(4) by (rule place_loop_step)
  have pre: "N - Suc k = n" "1 \<le> Suc k" "Suc k \<le> N" "length ?c1 = N"
    using Suc.prems kN by simp_all
  obtain copy' where run: "place_loop (zip [Suc k..<N] (drop (Suc k) B)) ?c1 (int ?m)
                    (int ((Suc k + 1) div 2)) (odd (Suc k)) = Inr copy'"
    and len: "length copy' = N"
    and hit: "\<forall>i. Suc k \<le> i \<and> i < N \<longrightarrow> copy' ! nat (place_pos ?m i) = Path (B ! i)"
    and miss: "\<forall>p < N. (\<forall>i. Suc k \<le> i \<and> i < N \<longrightarrow> place_pos ?m i \<noteq> int p)
            \<longrightarrow> copy' ! p = ?c1 ! p"
    using Suc.IH [OF pre Suc.prems(5)] by blast
  note rg = place_pos_range [OF kN]
  have pkN: "?pk < N" using rg by linarith
  have pk_int: "int ?pk = place_pos ?m k" using rg by simp
  have hit': "copy' ! nat (place_pos ?m i) = Path (B ! i)" if i: "k \<le> i" "i < N" for i
  proof (cases "i = k")
    case True
    have "\<forall>j. Suc k \<le> j \<and> j < N \<longrightarrow> place_pos ?m j \<noteq> int ?pk"
    proof (intro allI impI)
      fix j assume j: "Suc k \<le> j \<and> j < N"
      show "place_pos ?m j \<noteq> int ?pk"
      proof
        assume "place_pos ?m j = int ?pk"
        then have "place_pos ?m j = place_pos ?m k" using pk_int by simp
        then have "j = k" by (rule place_pos_inj)
        then show False using j by simp
      qed
    qed
    then have "copy' ! ?pk = ?c1 ! ?pk" using miss pkN by blast
    also have "\<dots> = Path (B ! k)" using pkN Suc.prems(4) by simp
    finally show ?thesis using True by simp
  next
    case False
    then have "Suc k \<le> i" using i(1) by simp
    then show ?thesis using hit i(2) by blast
  qed
  have miss': "copy' ! p = copy ! p"
    if p: "p < N" and np: "\<forall>i. k \<le> i \<and> i < N \<longrightarrow> place_pos ?m i \<noteq> int p" for p
  proof -
    have "\<forall>i. Suc k \<le> i \<and> i < N \<longrightarrow> place_pos ?m i \<noteq> int p" using np by simp
    then have "copy' ! p = ?c1 ! p" using miss p by blast
    moreover have "place_pos ?m k \<noteq> int p" using np kN by simp
    then have "?pk \<noteq> p" using pk_int by linarith
    ultimately show ?thesis by simp
  qed
  show ?case unfolding step using run len hit' miss' by blast
qed


lemma positions_cover:
  assumes "distinct ps" "length ps = N" "set ps \<subseteq> {..<N}"
  shows "set ps = {..<N}"
proof (rule card_subset_eq)
  show "finite {..<N}" by simp
  show "set ps \<subseteq> {..<N}" by (rule assms(3))
  have "card (set ps) = length ps" using assms(1) by (rule distinct_card)
  then show "card (set ps) = card {..<N}" using assms(2) by simp
qed

lemma mset_positions:
  assumes "distinct ps" "length ps = N" "set ps \<subseteq> {..<N}"
  shows "mset ps = mset [0..<N]"
proof -
  have "set ps = set [0..<N]"
    unfolding positions_cover [OF assms] by (simp add: lessThan_atLeast0)
  moreover have "distinct [0..<N]" by simp
  ultimately show ?thesis
    using assms(1) by (simp only: set_eq_iff_mset_eq_distinct)
qed

lemma mset_by_positions:
  assumes "length res = N" "distinct ps" "length ps = N" "set ps \<subseteq> {..<N}"
  shows "mset (map ((!) res) ps) = mset res"
proof -
  have "mset (map ((!) res) ps) = image_mset ((!) res) (mset ps)" by simp
  also have "\<dots> = image_mset ((!) res) (mset [0..<N])"
    by (simp only: mset_positions [OF assms(2-4)])
  also have "\<dots> = mset (map ((!) res) [0..<length res])" by (simp only: mset_map assms(1))
  also have "\<dots> = mset res" by (simp only: map_nth)
  finally show ?thesis .
qed


lemma keys_of_ok:
  assumes "\<forall>r \<in> set rs. name_to_date strptime r = Inr (date r)"
  shows "keys_of strptime rs = Inr (map (\<lambda>r. (r, date r)) rs)"
  using assms by (induction rs) simp_all

lemma sort_key_pairs_aux:
  "sort_key snd (map (\<lambda>r. (r, f r)) rs) = map (\<lambda>r. (r, f r)) (sort_key f rs)"
proof (induction rs)
  case Nil
  then show ?case by simp
next
  case (Cons x xs)
  have "insort_key snd (x, f x) (map (\<lambda>r. (r, f r)) ys) = map (\<lambda>r. (r, f r)) (insort_key f x ys)" for ys
    by (induction ys) simp_all
  then show ?case using Cons by simp
qed

lemma sort_key_pairs: "map fst (sort_key snd (map (\<lambda>r. (r, f r)) rs)) = sort_key f rs"
  by (simp add: sort_key_pairs_aux comp_def)

lemma sorted_by_date_ok:
  assumes "\<forall>r \<in> set rs. name_to_date strptime r = Inr (date r)"
  shows "sorted_by_date strptime rs = Inr (sort_key date rs)"
  by (simp add: sorted_by_date_def keys_of_ok [OF assms] sort_key_pairs)

lemma strict_sorted_by_date:
  assumes "distinct (map date rs)"
  shows "sorted_wrt (<) (map date (sort_key date rs))"
proof -
  have "mset (map date (sort_key date rs)) = mset (map date rs)" by simp
  then have "distinct (map date (sort_key date rs)) \<longleftrightarrow> distinct (map date rs)"
    by (rule mset_eq_imp_distinct_iff)
  then have "distinct (map date (sort_key date rs))" using assms by simp
  moreover have "sorted (map date (sort_key date rs))" by (rule sorted_sort_key)
  ultimately show ?thesis by (simp add: strict_sorted_iff)
qed



lemma sort_rasters_run:
  assumes N: "2 \<le> length B"
    and sd: "sorted_by_date strptime rasters = Inr B" and len: "length rasters = length B"
  shows "\<exists>res. sort_rasters strptime rasters = Inr res \<and> length res = length B
     \<and> (\<forall>k < length B. res ! nat (place_pos (length B div 2) k) = Path (B ! k))"
proof -
  let ?N = "length B"
  let ?m = "?N div 2"
  let ?c0 = "map Num [0..<?N]"
  let ?c1 = "?c0[?m := Path (B ! 0)]"
  obtain first rest where B: "B = first # rest" using N by (cases B) auto
  have f: "first = B ! 0" using B by simp
  have mN: "?m < ?N" using N by linarith
  have mid: "int ?N div 2 = int ?m" by simp
  have s0: "setitem ?c0 (int ?m) (Path (B ! 0)) = Inr ?c1"
    using setitem_in_range [of "int ?m" ?c0 "Path (B ! 0)"] mN by simp
  have u: "[0..<?N] = 0 # [Suc 0..<?N]"
    using B by (intro upt_conv_Cons) simp
  have d: "drop 1 B = rest" "B ! 0 = first" using B by simp_all
  have "zip (0 # [Suc 0..<?N]) (first # rest) = (0, first) # zip [Suc 0..<?N] rest" by simp
  then have z: "zip [0..<?N] B = (0, B ! 0) # zip [1..<?N] (drop 1 B)"
    unfolding d u [symmetric] B [symmetric] by simp
  have skip: "place_loop (zip [0..<?N] B) ?c1 (int ?m) 1 True
              = place_loop (zip [1..<?N] (drop 1 B)) ?c1 (int ?m) 1 True"
    unfolding z by simp
  have sr: "sort_rasters strptime rasters = place_loop (zip [0..<?N] B) ?c1 (int ?m) 1 True"
    unfolding sort_rasters_def sd len Let_def mid
    using s0 by (simp add: B)
  have pre: "?N - 1 = ?N - 1" "1 \<le> (1::nat)" "1 \<le> ?N" "length ?c1 = ?N" "length B = ?N"
    using N by simp_all
  have a1: "int ((1 + 1) div 2) = (1::int)" "odd (1::nat) = True" by simp_all
  obtain res where run: "place_loop (zip [1..<?N] (drop 1 B)) ?c1 (int ?m) 1 True = Inr res"
    and lr: "length res = ?N"
    and hit: "\<forall>i. 1 \<le> i \<and> i < ?N \<longrightarrow> res ! nat (place_pos ?m i) = Path (B ! i)"
    and miss: "\<forall>p < ?N. (\<forall>i. 1 \<le> i \<and> i < ?N \<longrightarrow> place_pos ?m i \<noteq> int p)
            \<longrightarrow> res ! p = ?c1 ! p"
    using place_loop_inv [OF pre] unfolding a1 by blast
  have nohit: "\<forall>i. 1 \<le> i \<and> i < ?N \<longrightarrow> place_pos ?m i \<noteq> int ?m"
  proof (intro allI impI)
    fix i assume i: "1 \<le> i \<and> i < ?N"
    show "place_pos ?m i \<noteq> int ?m"
    proof
      assume "place_pos ?m i = int ?m"
      then have "place_pos ?m i = place_pos ?m 0" by (simp add: place_pos_zero)
      then have "i = 0" by (rule place_pos_inj)
      then show False using i by simp
    qed
  qed
  have "res ! ?m = ?c1 ! ?m" using miss mN nohit by blast
  also have "\<dots> = Path (B ! 0)" using mN by simp
  finally have h0: "res ! nat (place_pos ?m 0) = Path (B ! 0)" by (simp add: place_pos_zero)
  have "res ! nat (place_pos ?m k) = Path (B ! k)" if "k < ?N" for k
  proof (cases "k = 0")
    case True
    then show ?thesis using h0 by simp
  next
    case False
    then have "1 \<le> k" by simp
    then show ?thesis using hit that by blast
  qed
  then show ?thesis using sr skip run lr by simp
qed


lemma place_pos_left: "1 \<le> j \<Longrightarrow> j \<le> m \<Longrightarrow> nat (place_pos m (2 * j - 1)) = m - j"
proof -
  assume j: "1 \<le> j" "j \<le> m"
  then obtain c where c: "j = c + 1" by (metis add.commute le_Suc_ex plus_1_eq_Suc)
  have "2 * j - 1 = 2 * c + 1" unfolding c by simp
  then have "place_pos m (2 * j - 1) = int m - int (c + 1)" by (simp only: place_pos_odd)
  then show ?thesis unfolding c using j(2) c by simp
qed

lemma place_pos_right: "nat (place_pos m (2 * j)) = m + j"
  by (simp only: place_pos_even)

lemma dates_ex:
  "name_to_date strptime_ex raster_a = Inr 3"
  "name_to_date strptime_ex raster_b = Inr 1"
  "name_to_date strptime_ex raster_c = Inr 2"
  by (simp_all add: name_to_date_def basename_def strptime_ex_def raster_a_def raster_b_def
        raster_c_def Let_def)


section \<open>The chunk loop of \<open>process_aligned\<close>\<close>

lemma chunk_round_eq:
  "chunk_round arr fwa offsets weights nodata_value folder_tmp uids chunks chunk w =
     (Inr (chunk_path_of folder_tmp uids chunk),
      w\<lparr>trace := trace w @ [''np.save''],
        npy_files := (npy_files w)(chunk_path_of folder_tmp uids chunk \<mapsto>
                        chunk_result arr fwa offsets weights nodata_value chunks chunk)\<rparr>)"
  by (simp add: chunk_round_def chunk_result_def call_s1_collapse_def s1_collapse_collapsed
        bind_io_def lift_io_def np_save_def return_io_def Let_def)


section \<open>Claims about \<open>hood_quantile\<close>\<close>

text \<open>
  C3. For every non-empty sequence of values with uniform positive weights,
  \<open>hood_quantile values weights 0.5\<close> is the standard median of the values: the middle
  element of the sorted values for an odd length, the mean of the two middle elements for
  an even length. (Exact arithmetic; the rounding of the floats is not modelled.)
\<close>

theorem hood_quantile_uniform_median:
  assumes ne: "vs \<noteq> []" and w: "0 < w"
  shows "hood_quantile vs (replicate (length vs) w) (1 / 2) = Inr (standard_median vs)"
proof -
  let ?n = "length vs"
  let ?s = "sort vs"
  let ?g = "\<lambda>i. (2 * real i + 1) / (2 * real ?n)"
  let ?xp = "map ?g [0..<?n]"
  have n0: "0 < ?n" using ne by simp
  have hq: "hood_quantile vs (replicate ?n w) (1 / 2) = interp (1 / 2) ?xp ?s"
    using hood_quantile_unfold [OF ne, of "replicate ?n w" "1 / 2"]
    by (simp only: sorted_weights_uniform intersect_uniform [OF n0 w] length_replicate order_refl)
  have lx: "length ?xp = ?n" by simp
  have nth: "?xp ! i = ?g i" if "i < ?n" for i using that by simp
  show ?thesis
  proof (cases "?n = 1")
    case True
    have "interp (1 / 2) ?xp ?s = Inr (?s ! 0)"
      using True by (intro interp_single) simp
    moreover have "standard_median vs = ?s ! 0"
      using True by (simp add: standard_median_odd)
    ultimately show ?thesis using hq by simp
  next
    case False
    then have n2: "2 \<le> ?n" using n0 by linarith
    have n2': "2 \<le> length ?xp" using n2 by simp
    have first: "?xp ! 0 \<le> 1 / 2"
      unfolding nth [OF n0] half_le_iff [OF n0] using n2 by simp
    have lastn: "?n - 1 < ?n" using n0 by simp
    have "1 / 2 < ?g (?n - 1)"
      unfolding half_less_iff [OF n0] using n2 by linarith
    then have last: "1 / 2 \<le> ?xp ! (length ?xp - 1)"
      unfolding lx nth [OF lastn] by simp
    let ?j = "search_index (1 / 2) ?xp"
    have jle: "?j \<le> ?n - 1" using search_index_le [of "1 / 2" ?xp] by simp
    then have jn: "?j < ?n" using n0 by linarith
    have xne: "?xp \<noteq> []" using n0 by simp
    have lo: "?g ?j \<le> 1 / 2"
      using search_index_lower [OF xne first] unfolding nth [OF jn] .
    have hi: "1 / 2 < ?g (?j + 1)" if jl: "?j < ?n - 1"
    proof -
      have "?j < length ?xp - 1" using jl by simp
      then have "1 / 2 < ?xp ! (?j + 1)" by (rule search_index_upper)
      moreover have "?j + 1 < ?n" using jl by linarith
      ultimately show ?thesis by (simp only: nth)
    qed
    have jeq: "?j = (?n - 1) div 2" using n2 lo hi jle by (rule uniform_index)
    have val: "interp (1 / 2) ?xp ?s = Inr (interp_at (1 / 2) ?xp ?s ?j)"
      using n2' first last by (rule interp_inrange)
    have jne: "?j \<noteq> length ?xp - 1" unfolding jeq lx using n2 by linarith
    show ?thesis
    proof (cases "odd ?n")
      case True
      then have h: "2 * ?j + 1 = ?n" unfolding jeq by (auto elim: oddE)
      have "real (2 * ?j + 1) = real ?n" using h by simp
      then have "?g ?j = 1 / 2" using n0 by (simp add: field_simps)
      then have "?xp ! ?j = 1 / 2" by (simp only: nth [OF jn])
      then have "interp_at (1 / 2) ?xp ?s ?j = ?s ! ?j"
        by (rule interp_at_hit)
      then have v: "interp_at (1 / 2) ?xp ?s ?j = ?s ! (?n div 2)"
        using odd_half [OF h] by simp
      have "standard_median vs = ?s ! (?n div 2)"
        using True by (rule standard_median_odd)
      then show ?thesis unfolding hq val v by (rule arg_cong [where f = Inr, OF sym])
    next
      case False
      then have h: "2 * (?j + 1) = ?n" unfolding jeq using n2 by (auto elim!: evenE)
      have j1: "?j + 1 < ?n" using h by (rule even_half(1))
      have rn: "real ?n = 2 * (real ?j + 1)" using h [symmetric] by simp
      have rp: "0 < real ?n" using n0 by simp
      have rj1: "real (?j + 1) = real ?j + 1" by simp
      have d: "?xp ! (?j + 1) - ?xp ! ?j = 1 / real ?n"
        unfolding nth [OF jn] nth [OF j1] rj1 using rp by (rule pos_gap)
      have t: "1 / 2 - ?xp ! ?j = 1 / (2 * real ?n)"
        unfolding nth [OF jn] using rp rn by (rule pos_half_gap)
      have "0 < 1 / (2 * real ?n)" using rp by simp
      then have ne2: "?xp ! ?j \<noteq> 1 / 2" using t by linarith
      have "interp_at (1 / 2) ?xp ?s ?j
            = (?s ! (?j + 1) - ?s ! ?j) / (?xp ! (?j + 1) - ?xp ! ?j) * (1 / 2 - ?xp ! ?j) + ?s ! ?j"
        using jne ne2 by (rule interp_at_between)
      also have "\<dots> = (?s ! (?j + 1) - ?s ! ?j) / (1 / real ?n) * (1 / (2 * real ?n)) + ?s ! ?j"
        by (simp only: d t)
      also have "\<dots> = (?s ! ?j + ?s ! (?j + 1)) / 2"
        using rp by (rule seg_half)
      finally have v: "interp_at (1 / 2) ?xp ?s ?j = (?s ! ?j + ?s ! (?j + 1)) / 2" .
      have dv: "?n div 2 = ?j + 1" using h by (rule even_half(2))
      have "standard_median vs = (?s ! (?n div 2 - 1) + ?s ! (?n div 2)) / 2"
        using False by (intro standard_median_even) simp
      then have "standard_median vs = (?s ! ?j + ?s ! (?j + 1)) / 2"
        unfolding dv by simp
      then show ?thesis unfolding hq val v by (rule arg_cong [where f = Inr, OF sym])
    qed
  qed
qed


theorem hood_quantile_uniform_median_witness:
  "[3, 1, 2, 7 :: real] \<noteq> [] \<and> (0 :: real) < 1 / 4
   \<and> hood_quantile [3, 1, 2, 7] (replicate (length [3, 1, 2, 7 :: real]) (1 / 4)) (1 / 2)
       = Inr (standard_median [3, 1, 2, 7])
   \<and> standard_median [3, 1, 2, 7] = 5 / 2"
  using hood_quantile_uniform_median [of "[3, 1, 2, 7]" "1 / 4"]
  by (simp add: standard_median_def)

text \<open>
  C7. For a fixed non-empty value sequence and non-negative weights with positive sum,
  \<open>hood_quantile\<close> returns a value for every requested quantile and is monotone in it:
  for \<open>q1 \<le> q2\<close> in \<open>[0, 1]\<close> the value at \<open>q1\<close> is at most the value at \<open>q2\<close>.
  (Exact arithmetic; the rounding of the floats is not modelled.)
\<close>

theorem hood_quantile_monotone:
  assumes ne: "vs \<noteq> []" and len: "length weights = length vs"
    and nonneg: "\<forall>w \<in> set weights. 0 \<le> w" and pos: "0 < sum_list weights"
    and q: "0 \<le> q1" "q1 \<le> q2" "q2 \<le> 1"
  shows "\<exists>r1 r2. hood_quantile vs weights q1 = Inr r1
                \<and> hood_quantile vs weights q2 = Inr r2 \<and> r1 \<le> r2"
proof -
  let ?sw = "map (\<lambda>i. weights ! i) (argsort vs)"
  let ?xp = "intersect_of (cumsum ?sw) ?sw"
  let ?fp = "sort vs"
  have le: "length vs \<le> length weights" using len by simp
  have h1: "hood_quantile vs weights q1 = interp q1 ?xp ?fp"
    using ne le by (rule hood_quantile_unfold)
  have h2: "hood_quantile vs weights q2 = interp q2 ?xp ?fp"
    using ne le by (rule hood_quantile_unfold)
  have swne: "?sw \<noteq> []" using ne by simp
  have sw0: "\<forall>w \<in> set ?sw. 0 \<le> w"
  proof
    fix w assume "w \<in> set ?sw"
    then obtain i where i: "i \<in> set (argsort vs)" and w: "w = weights ! i" by auto
    from i have "i < length weights" by (simp add: set_argsort len)
    then have "weights ! i \<in> set weights" by (rule nth_mem)
    with nonneg w show "0 \<le> w" by simp
  qed
  have sx: "sorted ?xp" using sw0 swne by (rule intersect_sorted)
  have sf: "sorted ?fp" by simp
  have lx: "length ?fp = length ?xp" by (simp add: length_argsort)
  have xne: "?xp \<noteq> []"
  proof
    assume "?xp = []"
    then have "length ?xp = 0" by simp
    then show False using ne by (simp add: length_argsort)
  qed
  obtain r1 where r1: "interp q1 ?xp ?fp = Inr r1" using interp_total [OF xne] by blast
  obtain r2 where r2: "interp q2 ?xp ?fp = Inr r2" using interp_total [OF xne] by blast
  have "r1 \<le> r2" using sx sf lx xne q(2) r1 r2 by (rule interp_mono)
  then show ?thesis unfolding h1 h2 using r1 r2 by blast
qed

theorem hood_quantile_monotone_witness:
  "[3, 1, 2 :: real] \<noteq> [] \<and> length [1, 2, 1 :: real] = length [3, 1, 2 :: real]
   \<and> (0 :: real) \<le> 1 \<and> (0 :: real) \<le> 2 \<and> 0 < sum_list [1, 2, 1 :: real]
   \<and> (0 :: real) \<le> 1 / 4 \<and> (1 / 4 :: real) \<le> 3 / 4 \<and> (3 / 4 :: real) \<le> 1
   \<and> (\<exists>r1 r2. hood_quantile [3, 1, 2] [1, 2, 1] (1 / 4) = Inr r1
                \<and> hood_quantile [3, 1, 2] [1, 2, 1] (3 / 4) = Inr r2 \<and> r1 \<le> r2)"
  using hood_quantile_monotone [of "[3, 1, 2]" "[1, 2, 1]" "1 / 4" "3 / 4"]
  by simp


section \<open>Claims about \<open>s1_collapse\<close>\<close>

text \<open>
  C4. With the nodata flag set, a pixel whose whole kernel neighbourhood is excluded
  (every candidate is out of range or reads the nodata value) has \<open>weight_sum = 0\<close>,
  and \<open>s1_collapse\<close> returns an array of the stack's rows and columns that holds the
  nodata value at that pixel.
\<close>

theorem s1_collapse_all_excluded_nodata:
  assumes "x < shape0 arr" and "y < shape1 arr"
    and "\<forall>n < length offsets. skipped arr (offsets ! n) True nodata_value x y"
  shows "weight_sum (gather arr offsets weights feather_weights True nodata_value x y) = 0
     \<and> (\<exists>r. s1_collapse arr offsets weights feather_weights quantile True nodata_value weighted
              = Inr r
            \<and> length (rowlist r) = shape0 arr \<and> ncols r = shape1 arr
            \<and> rowlist r ! x ! y = nodata_value)"
proof -
  let ?r = "collapsed arr offsets weights feather_weights quantile True nodata_value weighted"
  have w: "weight_sum (gather arr offsets weights feather_weights True nodata_value x y) = 0"
    using assms(3) by (rule gather_all_skipped)
  then have "pixel_value arr offsets weights feather_weights quantile True nodata_value weighted x y
             = None"
    by (intro pixel_value_no_weight) simp
  then have "rowlist ?r ! x ! y = nodata_value"
    unfolding nth_collapsed [OF assms(1,2)] by simp
  moreover have "length (rowlist ?r) = shape0 arr" "ncols ?r = shape1 arr"
    using wf2_collapsed [of arr offsets weights feather_weights quantile True nodata_value weighted]
    by (simp_all add: wf2_def)
  ultimately show ?thesis using w s1_collapse_collapsed by blast
qed

theorem s1_collapse_all_excluded_nodata_witness:
  "(0::nat) < shape0 arr_c4 \<and> (0::nat) < shape1 arr_c4
   \<and> skipped arr_c4 (0, 0, 0) True (-9999) 0 0 \<and> skipped arr_c4 (0, 0, -1) True (-9999) 0 0
   \<and> skipped arr_c4 (1, 0, 1) True (-9999) 0 0 \<and> skipped arr_c4 (0, 0, 2) True (-9999) 0 0
   \<and> (\<exists>r. s1_collapse arr_c4 [(0, 0, 0), (0, 0, -1), (1, 0, 1), (0, 0, 2)] [1, 1, 1, 1]
              (ones_like arr_c4) (1 / 2) True (-9999) True = Inr r
          \<and> rowlist r ! 0 ! 0 = -9999)"
proof -
  have a: "(0::nat) < shape0 arr_c4" "(0::nat) < shape1 arr_c4" by (simp_all add: arr_c4_def)
  have s: "skipped arr_c4 (0, 0, 0) True (-9999) 0 0" "skipped arr_c4 (0, 0, -1) True (-9999) 0 0"
    "skipped arr_c4 (1, 0, 1) True (-9999) 0 0" "skipped arr_c4 (0, 0, 2) True (-9999) 0 0"
    by (simp_all add: skipped_def candidate_of_def clamp_axis_def getitem3_def
          wrap_index_def arr_c4_def Let_def)
  have b: "\<forall>n < length [(0, 0, 0), (0, 0, -1), (1, 0, 1), (0, 0, 2)].
         skipped arr_c4 ([(0::int, 0::int, 0::int), (0, 0, -1), (1, 0, 1), (0, 0, 2)] ! n) True (-9999) 0 0"
    using s by (auto simp: less_Suc_eq)
  show ?thesis
    using s1_collapse_all_excluded_nodata [OF a b, of "[1, 1, 1, 1]" "ones_like arr_c4" "1 / 2" True]
      a s by blast
qed

text \<open>
  C2, at a concrete input. The stack has one row, two columns and one time step, with the
  values \<open>-10\<close> and \<open>30\<close>; the kernel has the entries \<open>(0, 0, 0)\<close>, \<open>(0, 1, 0)\<close> and
  \<open>(0, -1, 0)\<close>. At the pixel \<open>(0, 0)\<close> the third candidate is outside the columns.
  Its slot keeps the value \<open>0\<close> and the weight \<open>0\<close> and is passed to \<open>hood_quantile\<close>
  with the others: the result at \<open>(0, 0)\<close> is \<open>0\<close>, and it is \<open>10\<close> when the entry is
  removed from the kernel.
\<close>

theorem s1_collapse_skipped_slot_in_quantile:
  "outside (candidate_of arr_c2 (0, -1, 0) 0 0)
   \<and> s1_collapse arr_c2 [(0, 0, 0), (0, 1, 0), (0, -1, 0)] [1 / 3, 1 / 3, 1 / 3]
         (ones_like arr_c2) (1 / 2) True (-9999) True
       = Inr \<lparr>ncols = 2, rowlist = [[0, 0]]\<rparr>
   \<and> s1_collapse arr_c2 [(0, 0, 0), (0, 1, 0)] [1 / 3, 1 / 3]
         (ones_like arr_c2) (1 / 2) True (-9999) True
       = Inr \<lparr>ncols = 2, rowlist = [[10, 30]]\<rparr>"
  by (simp add: eval_collapse arr_c2_def)


text \<open>
  C10. With the nodata flag not set, a pixel whose whole kernel neighbourhood is excluded
  has \<open>weight_sum = 0\<close>, is never written, and keeps the \<open>0\<close> of the initial result
  array (not the nodata value).
\<close>

theorem s1_collapse_all_excluded_zero:
  assumes "x < shape0 arr" and "y < shape1 arr"
    and "\<forall>n < length offsets. skipped arr (offsets ! n) False nodata_value x y"
  shows "weight_sum (gather arr offsets weights feather_weights False nodata_value x y) = 0
     \<and> (\<exists>r. s1_collapse arr offsets weights feather_weights quantile False nodata_value weighted
              = Inr r
            \<and> rowlist r ! x ! y = 0)"
proof -
  let ?r = "collapsed arr offsets weights feather_weights quantile False nodata_value weighted"
  have w: "weight_sum (gather arr offsets weights feather_weights False nodata_value x y) = 0"
    using assms(3) by (rule gather_all_skipped)
  then have "pixel_value arr offsets weights feather_weights quantile False nodata_value weighted x y
             = None"
    by (intro pixel_value_no_weight) simp
  then have "rowlist ?r ! x ! y = 0"
    unfolding nth_collapsed [OF assms(1,2)] by simp
  then show ?thesis using w s1_collapse_collapsed by blast
qed

theorem s1_collapse_all_excluded_zero_witness:
  "(0::nat) < shape0 arr_c10 \<and> (0::nat) < shape1 arr_c10
   \<and> skipped arr_c10 (1, 0, 0) False (-9999) 0 0 \<and> skipped arr_c10 (0, 0, 1) False (-9999) 0 0
   \<and> (\<exists>r. s1_collapse arr_c10 [(1, 0, 0), (0, 0, 1)] [1 / 2, 1 / 2]
              (ones_like arr_c10) (1 / 2) False (-9999) True = Inr r
          \<and> rowlist r ! 0 ! 0 = 0)"
proof -
  have a: "(0::nat) < shape0 arr_c10" "(0::nat) < shape1 arr_c10" by (simp_all add: arr_c10_def)
  have s: "skipped arr_c10 (1, 0, 0) False (-9999) 0 0" "skipped arr_c10 (0, 0, 1) False (-9999) 0 0"
    by (simp_all add: skipped_def candidate_of_def clamp_axis_def getitem3_def
          wrap_index_def arr_c10_def Let_def)
  have b: "\<forall>n < length [(1, 0, 0), (0, 0, 1)].
         skipped arr_c10 ([(1::int, 0::int, 0::int), (0, 0, 1)] ! n) False (-9999) 0 0"
    using s by (auto simp: less_Suc_eq)
  show ?thesis
    using s1_collapse_all_excluded_zero [OF a b, of "[1 / 2, 1 / 2]" "ones_like arr_c10" "1 / 2" True]
      a s by blast
qed

text \<open>
  C8. A call of \<open>s1_collapse\<close> changes nothing but the result array: in whatever order
  the pixel positions are visited, the run ends without an error in a state whose stack,
  kernel offsets, kernel weights and feather weights are the ones passed in, and whose
  result array is the one the call returns. The value at a position \<open>(x, y)\<close> is
  \<open>pixel_value\<close> at \<open>(x, y)\<close>, a function of the inputs and of \<open>x\<close> and \<open>y\<close> alone (or
  the initial value where nothing is written).
\<close>

theorem s1_collapse_frame:
  assumes "mset ps = mset (pixel_order arr)"
  shows "\<exists>st'. run_pixels (pixel_body quantile nodata nodata_value weighted) ps
                 (initial_state arr offsets weights feather_weights nodata nodata_value) = Inr st'
     \<and> st_arr st' = arr \<and> st_offsets st' = offsets \<and> st_weights st' = weights
     \<and> st_feather st' = feather_weights
     \<and> s1_collapse arr offsets weights feather_weights quantile nodata nodata_value weighted
         = Inr (st_result st')
     \<and> (\<forall>x < shape0 arr. \<forall>y < shape1 arr.
           rowlist (st_result st') ! x ! y =
             (case pixel_value arr offsets weights feather_weights quantile nodata nodata_value
                     weighted x y of
                None \<Rightarrow> (if nodata then nodata_value else 0)
              | Some v \<Rightarrow> v))"
proof -
  let ?st0 = "initial_state arr offsets weights feather_weights nodata nodata_value"
  let ?r = "collapsed arr offsets weights feather_weights quantile nodata nodata_value weighted"
  have "set ps = set (pixel_order arr)" using assms by (rule mset_eq_setD)
  then have run: "run_pixels (pixel_body quantile nodata nodata_value weighted) ps ?st0
                  = Inr (?st0\<lparr>st_result := ?r\<rparr>)"
    by (rule run_pixels_any_order)
  have f: "st_arr (?st0\<lparr>st_result := ?r\<rparr>) = arr" "st_offsets (?st0\<lparr>st_result := ?r\<rparr>) = offsets"
    "st_weights (?st0\<lparr>st_result := ?r\<rparr>) = weights"
    "st_feather (?st0\<lparr>st_result := ?r\<rparr>) = feather_weights"
    "st_result (?st0\<lparr>st_result := ?r\<rparr>) = ?r"
    by (simp_all add: initial_state_fields)
  have v: "\<forall>x < shape0 arr. \<forall>y < shape1 arr.
           rowlist ?r ! x ! y =
             (case pixel_value arr offsets weights feather_weights quantile nodata nodata_value
                     weighted x y of
                None \<Rightarrow> (if nodata then nodata_value else 0)
              | Some v \<Rightarrow> v)"
    by (simp add: nth_collapsed)
  show ?thesis
    using run f v s1_collapse_collapsed [of arr offsets weights feather_weights quantile nodata nodata_value weighted]
    by (intro exI [of _ "?st0\<lparr>st_result := ?r\<rparr>"]) simp
qed

theorem s1_collapse_frame_witness:
  "mset [(0, 1), (0, 0)] = mset (pixel_order arr_c2)
   \<and> (\<exists>st'. run_pixels (pixel_body (1 / 2) True (-9999) True) [(0, 1), (0, 0)]
                 (initial_state arr_c2 [(0, 0, 0), (0, 1, 0)] [1 / 3, 1 / 3] (ones_like arr_c2)
                    True (-9999)) = Inr st'
     \<and> st_arr st' = arr_c2 \<and> st_offsets st' = [(0, 0, 0), (0, 1, 0)]
     \<and> st_weights st' = [1 / 3, 1 / 3] \<and> st_feather st' = ones_like arr_c2
     \<and> s1_collapse arr_c2 [(0, 0, 0), (0, 1, 0)] [1 / 3, 1 / 3] (ones_like arr_c2)
           (1 / 2) True (-9999) True = Inr (st_result st')
     \<and> (\<forall>x < shape0 arr_c2. \<forall>y < shape1 arr_c2.
           rowlist (st_result st') ! x ! y =
             (case pixel_value arr_c2 [(0, 0, 0), (0, 1, 0)] [1 / 3, 1 / 3] (ones_like arr_c2)
                     (1 / 2) True (-9999) True x y of
                None \<Rightarrow> (if True then -9999 else 0)
              | Some v \<Rightarrow> v)))"
proof -
  have a: "mset [(0, 1), (0, 0)] = mset (pixel_order arr_c2)"
    by (simp add: pixel_order_def arr_c2_def upt_rec)
  show ?thesis
    using s1_collapse_frame [OF a, of "1 / 2" True "-9999" True "[(0, 0, 0), (0, 1, 0)]"
        "[1 / 3, 1 / 3]" "ones_like arr_c2"] a
    by blast
qed


section \<open>Claim about \<open>sort_rasters\<close>\<close>

text \<open>
  C5. For a list of \<open>N \<ge> 2\<close> raster identifiers whose names all carry a time stamp,
  the time stamps pairwise distinct, \<open>sort_rasters\<close> returns a list of length \<open>N\<close>
  that is a permutation of the identifiers (no placeholder is left). With the identifiers
  in strictly ascending time order \<open>b 0, b 1, \<dots>\<close>, the earliest one \<open>b 0\<close> is at index
  \<open>N div 2\<close>, and for \<open>j \<ge> 1\<close> the identifier \<open>b (2 j - 1)\<close> is at index \<open>N div 2 - j\<close>
  and \<open>b (2 j)\<close> at index \<open>N div 2 + j\<close>; for even and for odd \<open>N\<close>.
\<close>

theorem sort_rasters_placement:
  assumes N: "2 \<le> length rasters"
    and dates: "\<forall>r \<in> set rasters. name_to_date strptime r = Inr (date r)"
    and dist: "distinct (map date rasters)"
  shows "\<exists>res. sort_rasters strptime rasters = Inr res
     \<and> length res = length rasters
     \<and> mset res = mset (map Path rasters)
     \<and> sorted_wrt (<) (map date (sort_key date rasters))
     \<and> res ! (length rasters div 2) = Path (sort_key date rasters ! 0)
     \<and> (\<forall>j. 1 \<le> j \<and> 2 * j - 1 < length rasters \<longrightarrow>
            res ! (length rasters div 2 - j) = Path (sort_key date rasters ! (2 * j - 1)))
     \<and> (\<forall>j. 1 \<le> j \<and> 2 * j < length rasters \<longrightarrow>
            res ! (length rasters div 2 + j) = Path (sort_key date rasters ! (2 * j)))"
proof -
  let ?B = "sort_key date rasters"
  let ?N = "length rasters"
  let ?m = "?N div 2"
  have lB: "length ?B = ?N" by simp
  have sd: "sorted_by_date strptime rasters = Inr ?B" using dates by (rule sorted_by_date_ok)
  have N': "2 \<le> length ?B" using N by simp
  obtain res where run: "sort_rasters strptime rasters = Inr res"
    and lr: "length res = ?N"
    and pos: "\<forall>k < ?N. res ! nat (place_pos ?m k) = Path (?B ! k)"
    using sort_rasters_run [OF N' sd lB [symmetric]] unfolding lB by blast
  let ?ps = "map (\<lambda>k. nat (place_pos ?m k)) [0..<?N]"
  have inj: "inj_on (\<lambda>k. nat (place_pos ?m k)) (set [0..<?N])"
  proof (rule inj_onI)
    fix i j assume i: "i \<in> set [0..<?N]" and j: "j \<in> set [0..<?N]"
      and e: "nat (place_pos ?m i) = nat (place_pos ?m j)"
    have "0 \<le> place_pos ?m i" "0 \<le> place_pos ?m j"
      using place_pos_range [of i ?N] place_pos_range [of j ?N] i j by simp_all
    with e have "place_pos ?m i = place_pos ?m j" by linarith
    then show "i = j" by (rule place_pos_inj)
  qed
  have dps: "distinct ?ps" using inj by (simp add: distinct_map)
  have sps: "set ?ps \<subseteq> {..<?N}"
  proof
    fix p assume "p \<in> set ?ps"
    then obtain k where k: "k < ?N" and p: "p = nat (place_pos ?m k)" by auto
    have "nat (place_pos ?m k) < ?N" using place_pos_range [OF k] by linarith
    then show "p \<in> {..<?N}" unfolding p by simp
  qed
  have "map ((!) res) ?ps = map (\<lambda>k. Path (?B ! k)) [0..<?N]"
    using pos by (simp add: comp_def)
  also have "\<dots> = map Path (map ((!) ?B) [0..<length ?B])" by (simp add: comp_def)
  also have "\<dots> = map Path ?B" by (simp only: map_nth)
  finally have "mset (map ((!) res) ?ps) = mset (map Path ?B)" by simp
  moreover have "mset (map ((!) res) ?ps) = mset res"
    using lr dps _ sps by (rule mset_by_positions) simp
  moreover have "mset (map Path ?B) = mset (map Path rasters)" by simp
  ultimately have perm: "mset res = mset (map Path rasters)" by simp
  have strict: "sorted_wrt (<) (map date ?B)" using dist by (rule strict_sorted_by_date)
  have "0 < ?N" using N by linarith
  then have "res ! nat (place_pos ?m 0) = Path (?B ! 0)" using pos by blast
  then have first: "res ! ?m = Path (?B ! 0)" by (simp add: place_pos_zero)
  have left: "res ! (?m - j) = Path (?B ! (2 * j - 1))" if j: "1 \<le> j \<and> 2 * j - 1 < ?N" for j
  proof -
    have jm: "j \<le> ?m" using j by linarith
    have "res ! nat (place_pos ?m (2 * j - 1)) = Path (?B ! (2 * j - 1))" using pos j by blast
    then show ?thesis using j jm by (simp only: place_pos_left)
  qed
  have right: "res ! (?m + j) = Path (?B ! (2 * j))" if j: "1 \<le> j \<and> 2 * j < ?N" for j
  proof -
    have "res ! nat (place_pos ?m (2 * j)) = Path (?B ! (2 * j))" using pos j by blast
    then show ?thesis by (simp only: place_pos_right)
  qed
  show ?thesis using run lr perm strict first left right by blast
qed

theorem sort_rasters_placement_witness:
  "2 \<le> length [raster_a, raster_b, raster_c]
   \<and> name_to_date strptime_ex raster_a = Inr (date_ex raster_a)
   \<and> name_to_date strptime_ex raster_b = Inr (date_ex raster_b)
   \<and> name_to_date strptime_ex raster_c = Inr (date_ex raster_c)
   \<and> distinct (map date_ex [raster_a, raster_b, raster_c])
   \<and> sort_rasters strptime_ex [raster_a, raster_b, raster_c]
       = Inr [Path raster_c, Path raster_b, Path raster_a]
   \<and> (\<exists>res. sort_rasters strptime_ex [raster_a, raster_b, raster_c] = Inr res
          \<and> length res = length [raster_a, raster_b, raster_c]
          \<and> mset res = mset (map Path [raster_a, raster_b, raster_c])
          \<and> res ! (length [raster_a, raster_b, raster_c] div 2)
              = Path (sort_key date_ex [raster_a, raster_b, raster_c] ! 0))"
proof -
  have d: "date_ex raster_a = 3" "date_ex raster_b = 1" "date_ex raster_c = 2"
    unfolding date_ex_def dates_ex by simp_all
  have a: "2 \<le> length [raster_a, raster_b, raster_c]" by simp
  have b: "\<forall>r \<in> set [raster_a, raster_b, raster_c]. name_to_date strptime_ex r = Inr (date_ex r)"
    by (simp add: d dates_ex)
  have c: "distinct (map date_ex [raster_a, raster_b, raster_c])"
    by (simp add: d)
  have e: "sort_rasters strptime_ex [raster_a, raster_b, raster_c]
       = Inr [Path raster_c, Path raster_b, Path raster_a]"
    by (simp add: sort_rasters_def sorted_by_date_def dates_ex setitem_def Let_def upt_rec)
  have f: "name_to_date strptime_ex raster_a = Inr (date_ex raster_a)"
    "name_to_date strptime_ex raster_b = Inr (date_ex raster_b)"
    "name_to_date strptime_ex raster_c = Inr (date_ex raster_c)"
    by (simp_all add: d dates_ex)
  have g: "\<exists>res. sort_rasters strptime_ex [raster_a, raster_b, raster_c] = Inr res
          \<and> length res = length [raster_a, raster_b, raster_c]
          \<and> mset res = mset (map Path [raster_a, raster_b, raster_c])
          \<and> res ! (length [raster_a, raster_b, raster_c] div 2)
              = Path (sort_key date_ex [raster_a, raster_b, raster_c] ! 0)"
    using sort_rasters_placement [OF a b c] by blast
  show ?thesis using a f c e g by blast
qed


end
